theory Spec2Isabelle
  imports Complex_Main
begin

section \<open>The BrainBox SQLite layer (brainbox-db.ts)\<close>

text \<open>
  A shallow embedding of the class \<open>BrainBoxDB\<close>: its four tables, the prepared
  statements and the methods \<open>record\<close>, \<open>recall\<close>, \<open>decay\<close>, \<open>close\<close>.

  Conventions of the model.
  \<^item> JavaScript numbers and SQLite \<open>REAL\<close> columns are mathematical reals (no rounding);
    \<open>INTEGER\<close> columns are integers.
  \<^item> A string is a list of characters, each read as one code point below 256; text with
    other code points is outside the model.
  \<^item> A timestamp (\<open>new Date().toISOString()\<close>, \<open>Date.now()\<close>) is the number of
    milliseconds it denotes, and is an argument of the operation that reads the clock.
  \<^item> A table is the list of its rows in rowid order. \<open>ORDER BY\<close> is a stable sort of
    that list (SQLite leaves the order of ties open).
  \<^item> An exception is a value: every method returns its outcome together with the engine
    state it leaves behind. Statements run in autocommit mode, so the rows written before
    an exception stay written.
\<close>

subsection \<open>Constants\<close>

definition LEARNING_RATE :: real where "LEARNING_RATE = 0.1"
definition MYELIN_RATE :: real where "MYELIN_RATE = 0.02"
definition MYELIN_MAX :: real where "MYELIN_MAX = 0.95"
definition SYNAPSE_DECAY_RATE :: real where "SYNAPSE_DECAY_RATE = 0.02"
definition ACTIVATION_DECAY_RATE :: real where "ACTIVATION_DECAY_RATE = 0.15"
definition MYELIN_DECAY_RATE :: real where "MYELIN_DECAY_RATE = 0.005"
definition SYNAPSE_PRUNE_THRESHOLD :: real where "SYNAPSE_PRUNE_THRESHOLD = 0.05"
definition CONFIDENCE_GATE :: real where "CONFIDENCE_GATE = 0.4"
definition CO_ACCESS_WINDOW_SIZE :: nat where "CO_ACCESS_WINDOW_SIZE = 10"

subsection \<open>Strings: JavaScript and SQLite primitives\<close>

definition dquote :: char where "dquote = CHR 0x22"
definition bslash :: char where "bslash = CHR 0x5C"

text \<open>The class \<open>\s\<close> of a JavaScript regular expression, below code point 256.\<close>

definition is_space :: "char \<Rightarrow> bool" where
  "is_space c = ((of_char c :: nat) \<in> {9, 10, 11, 12, 13, 32, 160})"

text \<open>\<open>String.prototype.toLowerCase\<close>, below code point 256.\<close>

definition lower_char :: "char \<Rightarrow> char" where
  "lower_char c =
     (let n = (of_char c :: nat) in
      if (65 \<le> n \<and> n \<le> 90) \<or> (192 \<le> n \<and> n \<le> 222 \<and> n \<noteq> 215)
      then char_of (n + 32) else c)"

definition toLowerCase :: "string \<Rightarrow> string" where
  "toLowerCase s = map lower_char s"

text \<open>
  \<open>s.split(/\s+/)\<close>: the pieces between maximal runs of white space, the empty pieces
  at both ends included. \<open>in_ws\<close> says that the previous character was white space;
  \<open>cur\<close> is the current piece, reversed.
\<close>

fun split_ws_aux :: "bool \<Rightarrow> string \<Rightarrow> string \<Rightarrow> string list" where
  "split_ws_aux in_ws cur [] = [rev cur]"
| "split_ws_aux in_ws cur (c # cs) =
     (if is_space c
      then (if in_ws then split_ws_aux True cur cs
            else rev cur # split_ws_aux True [] cs)
      else split_ws_aux False (c # cur) cs)"

definition split_ws :: "string \<Rightarrow> string list" where
  "split_ws s = split_ws_aux False [] s"

text \<open>\<open>query.toLowerCase().split(/\s+/).filter(w => w.length > 2)\<close>\<close>

definition keywords_of :: "string \<Rightarrow> string list" where
  "keywords_of query = filter (\<lambda>w. length w > 2) (split_ws (toLowerCase query))"

text \<open>\<open>String.prototype.includes\<close>: the needle occurs as a contiguous piece.\<close>

fun starts_with :: "string \<Rightarrow> string \<Rightarrow> bool" where
  "starts_with s [] = True"
| "starts_with [] (k # ks) = False"
| "starts_with (c # cs) (k # ks) = (c = k \<and> starts_with cs ks)"

fun includes_str :: "string \<Rightarrow> string \<Rightarrow> bool" where
  "includes_str [] k = (k = [])"
| "includes_str (c # cs) k = (starts_with (c # cs) k \<or> includes_str cs k)"

text \<open>\<open>Array.prototype.join(" ")\<close> on an array of strings.\<close>

fun join_sp :: "string list \<Rightarrow> string" where
  "join_sp [] = []"
| "join_sp [x] = x"
| "join_sp (x # y # ys) = x @ CHR '' '' # join_sp (y # ys)"

text \<open>
  The SQLite operator \<open>text LIKE pattern\<close> with its defaults: \<open>%\<close> matches any run of
  characters, \<open>_\<close> any one character, the letters A to Z match without regard to case,
  and there is no escape character.
\<close>

definition ascii_fold :: "char \<Rightarrow> char" where
  "ascii_fold c =
     (let n = (of_char c :: nat) in if 65 \<le> n \<and> n \<le> 90 then char_of (n + 32) else c)"

fun like :: "string \<Rightarrow> string \<Rightarrow> bool" where
  "like [] t = (t = [])"
| "like (p # ps) [] = (p = CHR ''%'' \<and> like ps [])"
| "like (p # ps) (c # cs) =
     (if p = CHR ''%'' then like ps (c # cs) \<or> like (p # ps) cs
      else (p = CHR ''_'' \<or> ascii_fold p = ascii_fold c) \<and> like ps cs)"

subsection \<open>The JSON text of the \<open>contexts\<close> column\<close>

text \<open>
  \<open>JSON.stringify\<close> on an array of strings: no white space, the two-character escapes
  for quote, backslash, backspace, form feed, newline, carriage return and tab,
  \<open>\u00XX\<close> with lower-case digits for the other characters below 32.
\<close>

definition hex_digit :: "nat \<Rightarrow> char" where
  "hex_digit n = (if n < 10 then char_of (48 + n) else char_of (87 + n))"

definition json_escape :: "char \<Rightarrow> string" where
  "json_escape c =
     (let n = (of_char c :: nat) in
      if c = dquote then [bslash, dquote]
      else if c = bslash then [bslash, bslash]
      else if n = 8 then [bslash, CHR ''b'']
      else if n = 12 then [bslash, CHR ''f'']
      else if n = 10 then [bslash, CHR ''n'']
      else if n = 13 then [bslash, CHR ''r'']
      else if n = 9 then [bslash, CHR ''t'']
      else if n < 32
        then [bslash, CHR ''u'', CHR ''0'', CHR ''0'', hex_digit (n div 16), hex_digit (n mod 16)]
      else [c])"

definition json_quote :: "string \<Rightarrow> string" where
  "json_quote s = dquote # concat (map json_escape s) @ [dquote]"

fun json_elems :: "string list \<Rightarrow> string" where
  "json_elems [] = []"
| "json_elems [x] = json_quote x"
| "json_elems (x # y # ys) = json_quote x @ CHR '','' # json_elems (y # ys)"

definition JSON_stringify :: "string list \<Rightarrow> string" where
  "JSON_stringify xs = CHR ''['' # json_elems xs @ [CHR '']'']"

text \<open>
  \<open>JSON.parse\<close>, as the engine uses it: the result is read as a \<open>string[]\<close>. The model
  succeeds exactly on the JSON texts of arrays of strings (white space between tokens and
  all escapes accepted, \<open>\uXXXX\<close> for code points below 256) and reports every other text
  as a decoding failure; for a text that is not JSON this is the \<open>SyntaxError\<close> that
  \<open>JSON.parse\<close> throws.
\<close>

definition json_ws :: "char \<Rightarrow> bool" where
  "json_ws c = ((of_char c :: nat) \<in> {32, 9, 10, 13})"

definition hex_val :: "char \<Rightarrow> nat option" where
  "hex_val c =
     (let n = (of_char c :: nat) in
      if 48 \<le> n \<and> n \<le> 57 then Some (n - 48)
      else if 97 \<le> n \<and> n \<le> 102 then Some (n - 87)
      else if 65 \<le> n \<and> n \<le> 70 then Some (n - 55)
      else None)"

definition json_unescape :: "char \<Rightarrow> char option" where
  "json_unescape e =
     (if e = dquote then Some dquote
      else if e = bslash then Some bslash
      else if e = CHR ''/'' then Some (CHR ''/'')
      else if e = CHR ''b'' then Some (char_of (8 :: nat))
      else if e = CHR ''f'' then Some (char_of (12 :: nat))
      else if e = CHR ''n'' then Some (char_of (10 :: nat))
      else if e = CHR ''r'' then Some (char_of (13 :: nat))
      else if e = CHR ''t'' then Some (char_of (9 :: nat))
      else None)"

text \<open>
  The characters of a string after its opening quote: the decoded string (accumulated
  in reverse) and the text after the closing quote.
\<close>

fun parse_chars :: "string \<Rightarrow> string \<Rightarrow> (string \<times> string) option" where
  "parse_chars acc [] = None"
| "parse_chars acc (c # cs) =
     (if c = dquote then Some (rev acc, cs)
      else if c = bslash then
        (case cs of
           [] \<Rightarrow> None
         | e # es \<Rightarrow>
             if e = CHR ''u'' then
               (case es of
                  h1 # h2 # h3 # h4 # r \<Rightarrow>
                    (case (hex_val h1, hex_val h2, hex_val h3, hex_val h4) of
                       (Some a, Some b, Some c', Some d) \<Rightarrow>
                         (let n = ((a * 16 + b) * 16 + c') * 16 + d
                          in if n < 256 then parse_chars (char_of n # acc) r else None)
                     | _ \<Rightarrow> None)
                | _ \<Rightarrow> None)
             else
               (case json_unescape e of
                  None \<Rightarrow> None
                | Some x \<Rightarrow> parse_chars (x # acc) es))
      else if (of_char c :: nat) < 32 then None
      else parse_chars (c # acc) cs)"

lemma parse_chars_shorter:
  "parse_chars acc cs = Some (s, r) \<Longrightarrow> length r < length cs"
proof (induction acc cs rule: parse_chars.induct)
  case (1 acc)
  then show ?case by simp
next
  case (2 acc c cs)
  show ?case
  proof (cases "c = dquote")
    case True
    with "2.prems" show ?thesis by simp
  next
    case nq: False
    show ?thesis
    proof (cases "c = bslash")
      case False
      with nq "2.prems" "2.IH"(3) show ?thesis
        by (fastforce split: if_splits)
    next
      case bs: True
      show ?thesis
      proof (cases cs)
        case Nil
        with nq bs "2.prems" show ?thesis by simp
      next
        case (Cons e es)
        show ?thesis
        proof (cases "e = CHR ''u''")
          case False
          with nq bs Cons "2.prems" "2.IH"(2) [of e es] show ?thesis
            by (fastforce split: option.splits)
        next
          case True
          with nq bs Cons "2.prems" "2.IH"(1) [of e es] show ?thesis
            by (fastforce split: list.splits option.splits if_splits simp: Let_def)
        qed
      qed
    qed
  qed
qed

definition skip_ws :: "string \<Rightarrow> string" where
  "skip_ws t = dropWhile json_ws t"

lemma skip_ws_shorter: "skip_ws t = c # cs \<Longrightarrow> length cs < length t"
proof -
  assume h: "skip_ws t = c # cs"
  have "length (skip_ws t) \<le> length t"
    unfolding skip_ws_def by (rule length_dropWhile_le)
  with h show ?thesis by simp
qed

text \<open>The elements after the first: \<open>]\<close> ends the array, \<open>,\<close> announces the next string.\<close>

function parse_elems :: "string list \<Rightarrow> string \<Rightarrow> string list option" where
  "parse_elems acc t =
     (case skip_ws t of
        [] \<Rightarrow> None
      | c # cs \<Rightarrow>
          if c = CHR '']'' then (if skip_ws cs = [] then Some (rev acc) else None)
          else if c = CHR '','' then
            (case skip_ws cs of
               [] \<Rightarrow> None
             | q # qs \<Rightarrow>
                 if q = dquote then
                   (case parse_chars [] qs of
                      None \<Rightarrow> None
                    | Some (s, r) \<Rightarrow> parse_elems (s # acc) r)
                 else None)
          else None)"
  by pat_completeness auto
termination
proof (relation "measure (\<lambda>(acc, t). length t)")
  show "wf (measure (\<lambda>(acc, t). length t))" by simp
next
  fix acc :: "string list" and t c cs q qs x s r
  assume a: "skip_ws t = c # cs" "skip_ws cs = q # qs"
    and p: "parse_chars [] qs = Some x" "(s, r) = x"
  from p have "length r < length qs" using parse_chars_shorter [of "[]" qs s r] by simp
  moreover from a(2) have "length qs < length cs" by (rule skip_ws_shorter)
  moreover from a(1) have "length cs < length t" by (rule skip_ws_shorter)
  ultimately show "((s # acc, r), (acc, t)) \<in> measure (\<lambda>(acc, t). length t)" by simp
qed

declare parse_elems.simps [simp del]

definition JSON_parse :: "string \<Rightarrow> string list option" where
  "JSON_parse t =
     (case skip_ws t of
        [] \<Rightarrow> None
      | c # cs \<Rightarrow>
          if c = CHR ''['' then
            (case skip_ws cs of
               [] \<Rightarrow> None
             | q # qs \<Rightarrow>
                 if q = CHR '']'' then (if skip_ws qs = [] then Some [] else None)
                 else if q = dquote then
                   (case parse_chars [] qs of
                      None \<Rightarrow> None
                    | Some (s, r) \<Rightarrow> parse_elems [s] r)
                 else None)
          else None)"

subsection \<open>Rows and engine state\<close>

text \<open>
  The columns of the four tables as \<open>migrate\<close> creates them. The column \<open>id\<close> of
  \<open>neurons\<close> is \<open>nid\<close>, its \<open>type\<close> is \<open>ntype\<close>; \<open>contexts\<close> is the stored JSON text.
  The column \<open>embedding\<close> (always \<open>NULL\<close>, never read) is left out.
\<close>

record neuron =
  nid :: string
  ntype :: string
  path :: string
  activation :: real
  myelination :: real
  access_count :: int
  last_accessed :: "int option"
  created_at :: int
  contexts :: string

record synapse =
  source_id :: string
  target_id :: string
  weight :: real
  co_access_count :: int
  last_fired :: "int option"
  syn_created_at :: int

record access =
  log_id :: int
  neuron_id :: string
  session_id :: string
  query_text :: "string option"
  timestamp :: int
  token_cost :: int
  access_order :: int

record session =
  sess_id :: string
  started_at :: int
  ended_at :: "int option"
  total_accesses :: int
  tokens_used :: int
  tokens_saved :: int
  hit_rate :: real

text \<open>
  The object: whether the database handle is open, the tables (\<open>log_seq\<close> is the
  \<open>AUTOINCREMENT\<close> counter of \<open>access_log\<close>), and the private fields \<open>recentAccesses\<close>,
  \<open>sessionId\<close>, \<open>accessOrder\<close>.
\<close>

record engine =
  db_open :: bool
  neurons :: "neuron list"
  synapses :: "synapse list"
  access_log :: "access list"
  log_seq :: int
  sessions :: "session list"
  recentAccesses :: "string list"
  sessionId :: string
  accessOrder :: int

datatype error = SyntaxError | ForeignKeyError

datatype 'a result = Ok 'a | Raised error

subsection \<open>The prepared statements\<close>

definition getNeuron :: "engine \<Rightarrow> string \<Rightarrow> neuron option" where
  "getNeuron s i = find (\<lambda>n. nid n = i) (neurons s)"

definition myelin_update :: "real \<Rightarrow> real" where
  "myelin_update m = min (m + MYELIN_RATE * (1 - m)) MYELIN_MAX"

text \<open>
  \<open>upsertNeuron\<close>: a new row takes the values given, with \<open>access_count = 1\<close>; on a
  conflict on \<open>id\<close> the row's own myelination is advanced and the parameter
  \<open>@myelination\<close> is not used.
\<close>

definition upsertNeuron ::
  "string \<Rightarrow> string \<Rightarrow> string \<Rightarrow> real \<Rightarrow> real \<Rightarrow> int \<Rightarrow> string \<Rightarrow> engine \<Rightarrow> engine" where
  "upsertNeuron i ty p act myel now ctx s =
     (case getNeuron s i of
        None \<Rightarrow>
          s\<lparr>neurons := neurons s @
            [\<lparr>nid = i, ntype = ty, path = p, activation = act, myelination = myel,
              access_count = 1, last_accessed = Some now, created_at = now, contexts = ctx\<rparr>]\<rparr>
      | Some _ \<Rightarrow>
          s\<lparr>neurons := map (\<lambda>n. if nid n = i
                 then n\<lparr>activation := act,
                        myelination := myelin_update (myelination n),
                        access_count := access_count n + 1,
                        last_accessed := Some now,
                        contexts := ctx\<rparr>
                 else n) (neurons s)\<rparr>)"

definition strengthen :: "real \<Rightarrow> real \<Rightarrow> real" where
  "strengthen delta w = min (w + delta * (1 - w)) 1"

definition is_edge :: "string \<Rightarrow> string \<Rightarrow> synapse \<Rightarrow> bool" where
  "is_edge src tgt r = (source_id r = src \<and> target_id r = tgt)"

text \<open>
  \<open>upsertSynapse\<close>: on a conflict on the key the weight is strengthened; a new row must
  pass the foreign keys on both endpoints (\<open>foreign_keys = ON\<close>), or the statement fails
  and writes nothing.
\<close>

definition upsertSynapse ::
  "string \<Rightarrow> string \<Rightarrow> real \<Rightarrow> real \<Rightarrow> int \<Rightarrow> engine \<Rightarrow> engine result" where
  "upsertSynapse src tgt w delta now s =
     (case find (is_edge src tgt) (synapses s) of
        Some _ \<Rightarrow>
          Ok (s\<lparr>synapses := map (\<lambda>r. if is_edge src tgt r
                 then r\<lparr>weight := strengthen delta (weight r),
                        co_access_count := co_access_count r + 1,
                        last_fired := Some now\<rparr>
                 else r) (synapses s)\<rparr>)
      | None \<Rightarrow>
          if getNeuron s src = None \<or> getNeuron s tgt = None then Raised ForeignKeyError
          else Ok (s\<lparr>synapses := synapses s @
            [\<lparr>source_id = src, target_id = tgt, weight = w, co_access_count = 1,
              last_fired = Some now, syn_created_at = now\<rparr>]\<rparr>))"

definition logAccess ::
  "string \<Rightarrow> string \<Rightarrow> string option \<Rightarrow> int \<Rightarrow> int \<Rightarrow> int \<Rightarrow> engine \<Rightarrow> engine result" where
  "logAccess i sid q now cost ord s =
     (if getNeuron s i = None then Raised ForeignKeyError
      else Ok (s\<lparr>access_log := access_log s @
            [\<lparr>log_id = log_seq s + 1, neuron_id = i, session_id = sid, query_text = q,
              timestamp = now, token_cost = cost, access_order = ord\<rparr>],
            log_seq := log_seq s + 1\<rparr>))"

definition createSession :: "string \<Rightarrow> int \<Rightarrow> engine \<Rightarrow> engine" where
  "createSession sid now s =
     (if list_ex (\<lambda>r. sess_id r = sid) (sessions s) then s
      else s\<lparr>sessions := sessions s @
            [\<lparr>sess_id = sid, started_at = now, ended_at = None, total_accesses = 0,
              tokens_used = 0, tokens_saved = 0, hit_rate = 0\<rparr>]\<rparr>)"

definition updateSession :: "string \<Rightarrow> int \<Rightarrow> engine \<Rightarrow> engine" where
  "updateSession sid used s =
     s\<lparr>sessions := map (\<lambda>r. if sess_id r = sid
            then r\<lparr>total_accesses := total_accesses r + 1, tokens_used := tokens_used r + used\<rparr>
            else r) (sessions s)\<rparr>"

definition searchByContext :: "string \<Rightarrow> nat \<Rightarrow> engine \<Rightarrow> neuron list" where
  "searchByContext pattern limit s =
     take limit (sort_key (\<lambda>n. - myelination n)
       (filter (\<lambda>n. like pattern (contexts n)) (neurons s)))"

text \<open>
  \<open>topByMyelination\<close>: \<open>type = COALESCE(@type, type)\<close> keeps every row when \<open>@type\<close> is
  \<open>NULL\<close>. A negative \<open>LIMIT\<close> would mean no limit; \<open>recall\<close> only passes positive ones.
\<close>

definition topByMyelination :: "string option \<Rightarrow> int \<Rightarrow> engine \<Rightarrow> neuron list" where
  "topByMyelination ty limit s =
     (let rows = sort_key (\<lambda>n. - myelination n)
            (filter (\<lambda>n. case ty of None \<Rightarrow> True | Some t \<Rightarrow> ntype n = t) (neurons s))
      in if limit < 0 then rows else take (nat limit) rows)"

definition getSynapses :: "string \<Rightarrow> engine \<Rightarrow> synapse list" where
  "getSynapses src s =
     sort_key (\<lambda>r. - weight r) (filter (\<lambda>r. source_id r = src) (synapses s))"

definition decayAll :: "engine \<Rightarrow> engine" where
  "decayAll s =
     s\<lparr>neurons := map (\<lambda>n. n\<lparr>activation := activation n * (1 - ACTIVATION_DECAY_RATE),
                               myelination := myelination n * (1 - MYELIN_DECAY_RATE)\<rparr>)
                       (neurons s)\<rparr>"

definition decaySynapses :: "engine \<Rightarrow> engine" where
  "decaySynapses s =
     s\<lparr>synapses := map (\<lambda>r. r\<lparr>weight := weight r * (1 - SYNAPSE_DECAY_RATE)\<rparr>) (synapses s)\<rparr>"

text \<open>The two \<open>DELETE\<close> statements return the number of rows they delete themselves.\<close>

definition pruneSynapses :: "engine \<Rightarrow> nat \<times> engine" where
  "pruneSynapses s =
     (length (filter (\<lambda>r. weight r < SYNAPSE_PRUNE_THRESHOLD) (synapses s)),
      s\<lparr>synapses := filter (\<lambda>r. \<not> weight r < SYNAPSE_PRUNE_THRESHOLD) (synapses s)\<rparr>)"

definition prunable :: "neuron \<Rightarrow> bool" where
  "prunable n = (activation n < 0.01 \<and> myelination n < 0.01 \<and> access_count n < 2)"

text \<open>
  \<open>pruneNeurons\<close>: with the foreign keys on, \<open>ON DELETE CASCADE\<close> removes the synapses and
  the access-log rows that refer to a deleted neuron.
\<close>

definition pruneNeurons :: "engine \<Rightarrow> nat \<times> engine" where
  "pruneNeurons s =
     (let kept = filter (\<lambda>n. \<not> prunable n) (neurons s);
          gone = map nid (filter prunable (neurons s))
      in (length gone,
          s\<lparr>neurons := kept,
            synapses := filter (\<lambda>r. source_id r \<notin> set gone \<and> target_id r \<notin> set gone) (synapses s),
            access_log := filter (\<lambda>a. neuron_id a \<notin> set gone) (access_log s)\<rparr>))"

subsection \<open>Opening and closing\<close>

text \<open>
  \<open>new BrainBoxDB(dbPath)\<close> where no database file exists yet: \<open>migrate\<close> creates empty
  tables, \<open>createSession\<close> inserts the session row, and the access log of the last hour,
  which seeds the window, is empty. The session id (the text \<open>nv-\<close> followed by
  \<open>Date.now()\<close>) and the time are arguments.
\<close>

definition new_BrainBoxDB :: "string \<Rightarrow> int \<Rightarrow> engine" where
  "new_BrainBoxDB sid now =
     createSession sid now
       \<lparr>db_open = True, neurons = [], synapses = [], access_log = [], log_seq = 0,
        sessions = [], recentAccesses = [], sessionId = sid, accessOrder = 0\<rparr>"

definition ensureOpen :: "engine \<Rightarrow> engine" where
  "ensureOpen s = (if \<not> db_open s then s\<lparr>db_open := True\<rparr> else s)"

text \<open>\<open>close\<close> catches whatever closing the handle throws, so it has no outcome to report.\<close>

definition close :: "engine \<Rightarrow> engine" where
  "close s = (if db_open s then s\<lparr>db_open := False\<rparr> else s)"

subsection \<open>\<open>record\<close>\<close>

text \<open>
  The contexts of the row that \<open>getNeuron\<close> found: none for no row or for an empty text
  (which is falsy), the parsed text otherwise; \<open>None\<close> when \<open>JSON.parse\<close> throws.
\<close>

definition existing_contexts :: "neuron option \<Rightarrow> string list option" where
  "existing_contexts existing =
     (case existing of
        None \<Rightarrow> Some []
      | Some e \<Rightarrow> if contexts e = [] then Some [] else JSON_parse (contexts e))"

text \<open>
  \<open>if (query && !contexts.includes(query)) { contexts.push(query);
  if (contexts.length > 20) contexts.shift(); }\<close>
\<close>

definition push_context :: "string option \<Rightarrow> string list \<Rightarrow> string list" where
  "push_context query ctxs =
     (case query of
        None \<Rightarrow> ctxs
      | Some q \<Rightarrow>
          if q \<noteq> [] \<and> q \<notin> set ctxs
          then (let c = ctxs @ [q] in if length c > 20 then tl c else c)
          else ctxs)"

definition token_cost_of :: "string \<Rightarrow> int" where
  "token_cost_of ty = (if ty = ''file'' then 1500 else 500)"

text \<open>
  The Hebbian loop over the window \<open>w\<close>, at index \<open>i\<close>, with \<open>rest\<close> the entries from
  \<open>i\<close> on. A failing statement ends the method with what was written so far.
\<close>

fun hebbian ::
  "string \<Rightarrow> int \<Rightarrow> nat \<Rightarrow> nat \<Rightarrow> string list \<Rightarrow> engine \<Rightarrow> unit result \<times> engine" where
  "hebbian i now len k [] s = (Ok (), s)"
| "hebbian i now len k (recentId # rest) s =
     (if recentId = i then hebbian i now len (k + 1) rest s
      else
        (let positionFactor = real (k + 1) / real len;
             delta = LEARNING_RATE * positionFactor
         in case upsertSynapse i recentId delta delta now s of
              Raised e \<Rightarrow> (Raised e, s)
            | Ok s1 \<Rightarrow>
                (case upsertSynapse recentId i delta delta now s1 of
                   Raised e \<Rightarrow> (Raised e, s1)
                 | Ok s2 \<Rightarrow> hebbian i now len (k + 1) rest s2)))"

text \<open>
  \<open>indexOf\<close>, \<open>splice\<close>, \<open>push\<close> and \<open>shift\<close> on the window: the first occurrence of the
  id is removed, the id goes to the end, and the head is dropped beyond ten entries.
\<close>

definition track :: "string \<Rightarrow> string list \<Rightarrow> string list" where
  "track i w =
     (let w' = remove1 i w @ [i]
      in if length w' > CO_ACCESS_WINDOW_SIZE then tl w' else w')"

text \<open>The composite id \<open>`${type}:${path}`\<close>.\<close>

definition id_of :: "string \<Rightarrow> string \<Rightarrow> string" where
  "id_of ty p = ty @ '':'' @ p"

definition record_op ::
  "string \<Rightarrow> string \<Rightarrow> string option \<Rightarrow> int \<Rightarrow> engine \<Rightarrow> unit result \<times> engine" where
  "record_op p ty query now s0 =
     (let s = ensureOpen s0;
          i = id_of ty p;
          existing = getNeuron s i
      in case existing_contexts existing of
           None \<Rightarrow> (Raised SyntaxError, s)
         | Some ctxs0 \<Rightarrow>
             (let ctxs = push_context query ctxs0;
                  s1 = upsertNeuron i ty p 1
                         (case existing of None \<Rightarrow> 0 | Some e \<Rightarrow> myelination e)
                         now (JSON_stringify ctxs) s;
                  s2 = s1\<lparr>accessOrder := accessOrder s1 + 1\<rparr>
              in case logAccess i (sessionId s2)
                        (case query of None \<Rightarrow> None | Some q \<Rightarrow> if q = [] then None else Some q)
                        now (token_cost_of ty) (accessOrder s2) s2 of
                   Raised e \<Rightarrow> (Raised e, s2)
                 | Ok s3 \<Rightarrow>
                     (case hebbian i now (length (recentAccesses s3)) 0 (recentAccesses s3) s3 of
                        (Raised e, s4) \<Rightarrow> (Raised e, s4)
                      | (Ok u, s4) \<Rightarrow>
                          (let s5 = s4\<lparr>recentAccesses := track i (recentAccesses s4)\<rparr>
                           in (Ok (), updateSession (sessionId s5) (token_cost_of ty) s5)))))"

definition recordSemantic :: "string \<Rightarrow> string option \<Rightarrow> int \<Rightarrow> engine \<Rightarrow> unit result \<times> engine" where
  "recordSemantic text context now s = record_op text ''semantic'' context now (ensureOpen s)"

subsection \<open>\<open>decay\<close>\<close>

definition decay :: "engine \<Rightarrow> (nat \<times> nat) \<times> engine" where
  "decay s0 =
     (let s1 = decaySynapses (decayAll (ensureOpen s0));
          (syn, s2) = pruneSynapses s1;
          (neu, s3) = pruneNeurons s2
      in ((syn, neu), s3))"

subsection \<open>\<open>recall\<close>\<close>

text \<open>
  A \<open>RecallResult\<close>: the row, its contexts as \<open>parseNeuron\<close> decodes them, the
  confidence and the activation path.
\<close>

record recall_result =
  r_neuron :: neuron
  r_contexts :: "string list"
  confidence :: real
  activation_path :: string

definition parseNeuron :: "neuron \<Rightarrow> string list result" where
  "parseNeuron n =
     (case JSON_parse (contexts n) of None \<Rightarrow> Raised SyntaxError | Some c \<Rightarrow> Ok c)"

definition ratio :: "nat \<Rightarrow> nat \<Rightarrow> real" where
  "ratio m k = (if k > 0 then real m / real k else 0)"

definition computeConfidence :: "neuron \<Rightarrow> string \<Rightarrow> int \<Rightarrow> real result" where
  "computeConfidence n query nowMs =
     (case JSON_parse (contexts n) of
        None \<Rightarrow> Raised SyntaxError
      | Some ctxs \<Rightarrow>
          (let keywords = keywords_of query;
               contextStr = toLowerCase (join_sp ctxs);
               matchCount = length (filter (\<lambda>k. includes_str contextStr k) keywords);
               score1 = ratio matchCount (length keywords) * 0.4;
               score2 = score1 + myelination n * 0.3;
               score3 = (case last_accessed n of
                           None \<Rightarrow> score2
                         | Some t \<Rightarrow>
                             (let ageMs = nowMs - t
                              in score2 + max 0 (1 - real_of_int ageMs / (168 * 3600000)) * 0.2));
               pathLower = toLowerCase (path n);
               pathMatches = length (filter (\<lambda>k. includes_str pathLower k) keywords);
               score4 = score3 + ratio pathMatches (length keywords) * 0.1
           in Ok (min score4 1.0)))"

text \<open>Phase 1: the rows whose contexts match a keyword, each once, in the order found.\<close>

definition add_matches :: "neuron list \<Rightarrow> neuron list \<Rightarrow> neuron list" where
  "add_matches dm ms =
     foldl (\<lambda>d m. if list_ex (\<lambda>x. nid x = nid m) d then d else d @ [m]) dm ms"

definition directMatches :: "string list \<Rightarrow> engine \<Rightarrow> neuron list" where
  "directMatches keywords s =
     foldl (\<lambda>d kw. add_matches d (searchByContext (CHR ''%'' # kw @ ''%'') 10 s)) [] keywords"

text \<open>
  The loops carry the set \<open>activated\<close> and the array \<open>results\<close>. A type that is the
  empty string is falsy and filters nothing.
\<close>

fun phase1 ::
  "string \<Rightarrow> string \<Rightarrow> int \<Rightarrow> neuron list \<Rightarrow> string set \<times> recall_result list
     \<Rightarrow> (string set \<times> recall_result list) result" where
  "phase1 ty query nowMs [] st = Ok st"
| "phase1 ty query nowMs (n # ns) (activated, results) =
     (if ty \<noteq> [] \<and> ntype n \<noteq> ty then phase1 ty query nowMs ns (activated, results)
      else
        (case computeConfidence n query nowMs of
           Raised e \<Rightarrow> Raised e
         | Ok conf \<Rightarrow>
             if conf < CONFIDENCE_GATE then phase1 ty query nowMs ns (activated, results)
             else
               (case parseNeuron n of
                  Raised e \<Rightarrow> Raised e
                | Ok ctxs \<Rightarrow>
                    phase1 ty query nowMs ns
                      (insert (nid n) activated,
                       results @ [\<lparr>r_neuron = n, r_contexts = ctxs, confidence = conf,
                                   activation_path = ''direct''\<rparr>]))))"

text \<open>Phase 2, inner loop: the synapses fetched for one seed.\<close>

fun spread ::
  "string \<Rightarrow> engine \<Rightarrow> recall_result \<Rightarrow> synapse list \<Rightarrow> string set \<times> recall_result list
     \<Rightarrow> (string set \<times> recall_result list) result" where
  "spread ty s seed [] st = Ok st"
| "spread ty s seed (syn # syns) (activated, results) =
     (if weight syn < 0.3 \<or> target_id syn \<in> activated
      then spread ty s seed syns (activated, results)
      else
        (case getNeuron s (target_id syn) of
           None \<Rightarrow> spread ty s seed syns (activated, results)
         | Some target \<Rightarrow>
             if ty \<noteq> [] \<and> ntype target \<noteq> ty then spread ty s seed syns (activated, results)
             else
               (let spreadConf = confidence seed * weight syn * (1 + myelination target)
                in if spreadConf < CONFIDENCE_GATE
                   then spread ty s seed syns (activated, results)
                   else
                     (case parseNeuron target of
                        Raised e \<Rightarrow> Raised e
                      | Ok ctxs \<Rightarrow>
                          spread ty s seed syns
                            (insert (target_id syn) activated,
                             results @ [\<lparr>r_neuron = target, r_contexts = ctxs,
                                         confidence = min spreadConf 0.99,
                                         activation_path = ''spread''\<rparr>])))))"

text \<open>Phase 2, outer loop: the frontier is the copy of the phase-1 results.\<close>

fun phase2 ::
  "string \<Rightarrow> engine \<Rightarrow> recall_result list \<Rightarrow> string set \<times> recall_result list
     \<Rightarrow> (string set \<times> recall_result list) result" where
  "phase2 ty s [] st = Ok st"
| "phase2 ty s (seed # frontier) st =
     (case spread ty s seed (take 10 (getSynapses (nid (r_neuron seed)) s)) st of
        Raised e \<Rightarrow> Raised e
      | Ok st' \<Rightarrow> phase2 ty s frontier st')"

text \<open>Phase 3: the loop over the rows of \<open>topByMyelination\<close>, with \<open>MYELIN_GATE = 0.15\<close>.\<close>

fun fallback ::
  "neuron list \<Rightarrow> string set \<Rightarrow> recall_result list \<Rightarrow> recall_result list result" where
  "fallback [] activated results = Ok results"
| "fallback (n # ns) activated results =
     (if nid n \<in> activated then fallback ns activated results
      else
        (let conf = myelination n * 0.5
         in if conf < 0.15 then fallback ns activated results
            else
              (case parseNeuron n of
                 Raised e \<Rightarrow> Raised e
               | Ok ctxs \<Rightarrow>
                   fallback ns activated
                     (results @ [\<lparr>r_neuron = n, r_contexts = ctxs, confidence = conf,
                                  activation_path = ''myelinated''\<rparr>]))))"

text \<open>\<open>results.slice(0, limit)\<close>: a negative limit counts from the end.\<close>

definition js_slice0 :: "int \<Rightarrow> 'a list \<Rightarrow> 'a list" where
  "js_slice0 limit xs =
     (if limit \<ge> 0 then take (nat limit) xs else take (nat (int (length xs) + limit)) xs)"

text \<open>\<open>results.sort((a, b) => b.confidence - a.confidence)\<close>, a stable sort.\<close>

definition sort_results :: "recall_result list \<Rightarrow> recall_result list" where
  "sort_results rs = sort_key (\<lambda>r. - confidence r) rs"

definition recall ::
  "string \<Rightarrow> string \<Rightarrow> int \<Rightarrow> int \<Rightarrow> engine \<Rightarrow> recall_result list result \<times> engine" where
  "recall query ty limit nowMs s0 =
     (let s = ensureOpen s0
      in ((case phase1 ty query nowMs (directMatches (keywords_of query) s) ({}, []) of
             Raised e \<Rightarrow> Raised e
           | Ok (activated1, results1) \<Rightarrow>
               (case phase2 ty s results1 (activated1, results1) of
                  Raised e \<Rightarrow> Raised e
                | Ok (activated2, results2) \<Rightarrow>
                    (case (if int (length results2) < limit
                           then fallback
                                  (topByMyelination (if ty = [] then None else Some ty)
                                     (limit - int (length results2)) s)
                                  activated2 results2
                           else Ok results2) of
                       Raised e \<Rightarrow> Raised e
                     | Ok results3 \<Rightarrow> Ok (js_slice0 limit (sort_results results3))))),
          s))"

subsection \<open>Runs, example databases and the predicates of the properties\<close>

text \<open>Sequences of calls. The host catches what \<open>record\<close> throws and goes on.\<close>

datatype call = Record string string "string option" int | Decay

fun apply_call :: "engine \<Rightarrow> call \<Rightarrow> engine" where
  "apply_call s (Record p ty q now) = snd (record_op p ty q now s)"
| "apply_call s Decay = snd (decay s)"

definition run :: "call list \<Rightarrow> engine \<Rightarrow> engine" where
  "run cs s = foldl apply_call s cs"

text \<open>
  The first end-to-end scenario: a new database, then \<open>record("/x", "file", "grep foo")\<close>
  and \<open>record("/y", "file", "grep foo")\<close>.
\<close>

definition pair0 :: engine where
  "pair0 = new_BrainBoxDB ''nv-1000'' 1000"

definition pair1 :: engine where
  "pair1 = snd (record_op ''/x'' ''file'' (Some ''grep foo'') 2000 pair0)"

definition pair2 :: engine where
  "pair2 = snd (record_op ''/y'' ''file'' (Some ''grep foo'') 3000 pair1)"

text \<open>The same neuron recorded twice in a new database.\<close>

definition twice :: engine where
  "twice = snd (record_op ''/x'' ''file'' None 3000 (snd (record_op ''/x'' ''file'' None 2000 pair0)))"


text \<open>\<open>decay()\<close> invoked \<open>k\<close> times in a row.\<close>

definition decays :: "nat \<Rightarrow> engine \<Rightarrow> engine" where
  "decays k s = run (replicate k Decay) s"

text \<open>
  Two neurons with the same activation \<open>x\<close>, no myelination and one access each, joined
  by two synapses, one in each direction, of the same weight \<open>w\<close>: the shape of the
  database after two first-time records, and after the decays that follow while nothing
  is pruned.
\<close>

definition pair_shape :: "real \<Rightarrow> real \<Rightarrow> string \<Rightarrow> string \<Rightarrow> engine \<Rightarrow> bool" where
  "pair_shape x w ia ib s =
     (map nid (neurons s) = [ia, ib] \<and>
      map activation (neurons s) = [x, x] \<and>
      map myelination (neurons s) = [0, 0] \<and>
      map access_count (neurons s) = [1, 1] \<and>
      map source_id (synapses s) = [ib, ia] \<and>
      map target_id (synapses s) = [ia, ib] \<and>
      map weight (synapses s) = [w, w])"

text \<open>One call of \<open>decay\<close>, table by table.\<close>

definition decayed_neurons :: "engine \<Rightarrow> neuron list" where
  "decayed_neurons s =
     map (\<lambda>n. n\<lparr>activation := activation n * (1 - ACTIVATION_DECAY_RATE),
                myelination := myelination n * (1 - MYELIN_DECAY_RATE)\<rparr>) (neurons s)"

definition decayed_synapses :: "engine \<Rightarrow> synapse list" where
  "decayed_synapses s =
     map (\<lambda>r. r\<lparr>weight := weight r * (1 - SYNAPSE_DECAY_RATE)\<rparr>) (synapses s)"

text \<open>
  The first scenario with the session id and the three clock readings left open.
\<close>

definition hebb :: "string \<Rightarrow> int \<Rightarrow> int \<Rightarrow> int \<Rightarrow> engine" where
  "hebb sid t0 n1 n2 = snd (record_op ''/y'' ''file'' (Some ''grep foo'') n2
      (snd (record_op ''/x'' ''file'' (Some ''grep foo'') n1 (new_BrainBoxDB sid t0))))"

text \<open>
  The recency term of \<open>computeConfidence\<close>, and the confidence of a neuron whose
  contexts match the only keyword, whose path does not, and whose myelination is 0.
\<close>

definition recency :: "int \<Rightarrow> int \<Rightarrow> real" where
  "recency nowMs t = max 0 (1 - real_of_int (nowMs - t) / (168 * 3600000))"

definition direct_conf :: "int \<Rightarrow> int \<Rightarrow> real" where
  "direct_conf nowMs t = min (0.4 + recency nowMs t * 0.2) 1.0"

text \<open>The numeric ranges of the data model.\<close>

definition neuron_ok :: "neuron \<Rightarrow> bool" where
  "neuron_ok n = (0 \<le> activation n \<and> activation n \<le> 1 \<and>
                  0 \<le> myelination n \<and> myelination n \<le> MYELIN_MAX)"

definition synapse_ok :: "synapse \<Rightarrow> bool" where
  "synapse_ok r = (0 \<le> weight r \<and> weight r \<le> 1)"

definition in_range :: "engine \<Rightarrow> bool" where
  "in_range s = (list_all neuron_ok (neurons s) \<and> list_all synapse_ok (synapses s))"

text \<open>
  The weight stored for the edge from \<open>a\<close> to \<open>b\<close>, if there is one; the key of a
  synapse row; a table in which an edge and its reverse are stored with the same weight,
  each key once.
\<close>

definition synapse_weight :: "engine \<Rightarrow> string \<Rightarrow> string \<Rightarrow> real option" where
  "synapse_weight s a b = map_option weight (find (is_edge a b) (synapses s))"

definition edge_key :: "synapse \<Rightarrow> string \<times> string" where
  "edge_key r = (source_id r, target_id r)"

definition symmetric :: "engine \<Rightarrow> bool" where
  "symmetric s = ((\<forall>a b. synapse_weight s a b = synapse_weight s b a) \<and>
                  distinct (map edge_key (synapses s)))"

text \<open>
  The weight \<open>upsertSynapse\<close> leaves when called with \<open>@weight = @delta = d\<close>, and the
  delta of the window entry at index \<open>k\<close> of a window of \<open>len\<close> entries.
\<close>

definition upserted :: "real \<Rightarrow> real option \<Rightarrow> real" where
  "upserted d old = (case old of None \<Rightarrow> d | Some w \<Rightarrow> strengthen d w)"

definition delta_at :: "nat \<Rightarrow> nat \<Rightarrow> real" where
  "delta_at k len = LEARNING_RATE * (real (k + 1) / real len)"











section \<open>Properties\<close>

subsection \<open>The JSON text round trip\<close>

lemma hex_val_hex_digit: "a < 16 \<Longrightarrow> hex_val (hex_digit a) = Some a"
  by (simp add: hex_val_def hex_digit_def Let_def)

lemma hex_val_zero: "hex_val (CHR ''0'') = Some 0"
  by (simp add: hex_val_def)

text \<open>Reading an escaped character gives the character back.\<close>

lemma parse_chars_escape:
  "parse_chars acc (json_escape c @ rest) = parse_chars (c # acc) rest"
proof -
  have c: "char_of (of_char c :: nat) = c" by simp
  consider (dq) "c = dquote" | (bs) "c = bslash"
    | (ctl) "c \<noteq> dquote" "c \<noteq> bslash" "(of_char c :: nat) \<in> {8, 12, 10, 13, 9}"
    | (uni) "c \<noteq> dquote" "c \<noteq> bslash" "(of_char c :: nat) \<notin> {8, 12, 10, 13, 9}"
        "(of_char c :: nat) < 32"
    | (raw) "c \<noteq> dquote" "c \<noteq> bslash" "\<not> (of_char c :: nat) < 32"
    by blast
  then show ?thesis
  proof cases
    case dq
    then show ?thesis by (simp add: json_escape_def json_unescape_def dquote_def bslash_def)
  next
    case bs
    then show ?thesis by (simp add: json_escape_def json_unescape_def dquote_def bslash_def)
  next
    case ctl
    from ctl(3) c obtain n :: nat where n: "n \<in> {8, 12, 10, 13, 9}" "c = char_of n"
      by metis
    from n(1) ctl(1,2) show ?thesis
      unfolding n(2)
      by (auto simp: json_escape_def json_unescape_def dquote_def bslash_def)
  next
    case uni
    let ?n = "of_char c :: nat"
    have d: "hex_val (hex_digit (?n div 16)) = Some (?n div 16)"
      "hex_val (hex_digit (?n mod 16)) = Some (?n mod 16)"
      using uni(4) by (simp_all add: hex_val_hex_digit)
    have e: "json_escape c =
        [bslash, CHR ''u'', CHR ''0'', CHR ''0'', hex_digit (?n div 16), hex_digit (?n mod 16)]"
      using uni by (simp add: json_escape_def Let_def)
    have f: "((0 * 16 + 0) * 16 + ?n div 16) * 16 + ?n mod 16 = ?n" by simp
    show ?thesis
      unfolding e using d hex_val_zero f c
      by (simp add: dquote_def bslash_def Let_def del: char_of_char)
  next
    case raw
    then show ?thesis by (auto simp: json_escape_def Let_def)
  qed
qed

lemma parse_chars_quote:
  "parse_chars acc (concat (map json_escape s) @ dquote # rest) = Some (rev acc @ s, rest)"
  by (induction s arbitrary: acc) (simp_all add: parse_chars_escape)

lemma skip_ws_nonws: "\<not> json_ws c \<Longrightarrow> skip_ws (c # cs) = c # cs"
  by (simp add: skip_ws_def)

lemma parse_elems_step:
  "parse_elems acc (CHR '','' # json_quote y @ rest) = parse_elems (y # acc) rest"
proof -
  have q: "\<not> json_ws dquote" by (simp add: json_ws_def dquote_def)
  have k: "\<not> json_ws (CHR '','')" by (simp add: json_ws_def)
  show ?thesis
    by (subst parse_elems.simps)
      (simp add: skip_ws_nonws q k json_quote_def parse_chars_quote)
qed

lemma parse_elems_tail:
  "parse_elems acc (concat (map (\<lambda>x. CHR '','' # json_quote x) ys) @ '']'') = Some (rev acc @ ys)"
proof (induction ys arbitrary: acc)
  case Nil
  show ?case
    by (subst parse_elems.simps) (simp add: skip_ws_def json_ws_def)
next
  case (Cons y ys)
  show ?case
    using Cons.IH [of "y # acc"] by (simp add: parse_elems_step)
qed

lemma json_elems_Cons:
  "json_elems (x # ys) = json_quote x @ concat (map (\<lambda>y. CHR '','' # json_quote y) ys)"
  by (induction ys arbitrary: x) simp_all

text \<open>What \<open>record\<close> writes into \<open>contexts\<close>, the next call reads back.\<close>

lemma JSON_roundtrip: "JSON_parse (JSON_stringify xs) = Some xs"
proof (cases xs)
  case Nil
  then show ?thesis
    by (simp add: JSON_parse_def JSON_stringify_def skip_ws_def json_ws_def)
next
  case (Cons x ys)
  have q: "\<not> json_ws dquote" by (simp add: json_ws_def dquote_def)
  have b: "\<not> json_ws (CHR ''['')" by (simp add: json_ws_def)
  have d: "dquote \<noteq> CHR '']''" by (simp add: dquote_def)
  have "JSON_stringify xs =
      CHR ''['' # dquote # concat (map json_escape x) @ dquote #
        (concat (map (\<lambda>y. CHR '','' # json_quote y) ys) @ '']'')"
    unfolding Cons JSON_stringify_def json_elems_Cons by (simp add: json_quote_def)
  then show ?thesis
    using parse_elems_tail [of "[x]" ys] Cons
    by (simp add: JSON_parse_def skip_ws_nonws q b d parse_chars_quote)
qed

lemma JSON_stringify_nonempty: "JSON_stringify xs \<noteq> []"
  by (simp add: JSON_stringify_def)

subsection \<open>What \<open>record\<close> does to the neuron table\<close>

lemma getNeuron_ensureOpen [simp]: "getNeuron (ensureOpen s) i = getNeuron s i"
  by (simp add: getNeuron_def ensureOpen_def)

lemma neurons_ensureOpen [simp]: "neurons (ensureOpen s) = neurons s"
  by (simp add: ensureOpen_def)

lemma ensureOpen_close: "ensureOpen (close s) = ensureOpen s"
  by (cases s) (simp add: ensureOpen_def close_def)

lemma neurons_upsertSynapse:
  "upsertSynapse src tgt w d now s = Ok s' \<Longrightarrow> neurons s' = neurons s"
  by (auto simp: upsertSynapse_def split: option.splits if_splits)

lemma neurons_hebbian: "neurons (snd (hebbian i now len k rest s)) = neurons s"
proof (induction rest arbitrary: k s)
  case Nil
  show ?case by simp
next
  case (Cons r rest)
  show ?case
    by (auto simp: Let_def Cons.IH split: result.splits dest!: neurons_upsertSynapse)
qed

lemma neurons_logAccess: "logAccess i sid q now c ord s = Ok s' \<Longrightarrow> neurons s' = neurons s"
  by (auto simp: logAccess_def split: if_splits)

lemma neurons_updateSession [simp]: "neurons (updateSession sid u s) = neurons s"
  by (simp add: updateSession_def)

text \<open>The neuron table after \<open>record\<close>: the upsert, or no change when decoding fails.\<close>

lemma neurons_record_op:
  "neurons (snd (record_op p ty q now s)) =
     (case existing_contexts (getNeuron s (id_of ty p)) of
        None \<Rightarrow> neurons s
      | Some c0 \<Rightarrow>
          neurons (upsertNeuron (id_of ty p) ty p 1
            (case getNeuron s (id_of ty p) of None \<Rightarrow> 0 | Some e \<Rightarrow> myelination e)
            now (JSON_stringify (push_context q c0)) (ensureOpen s)))"
proof (cases "existing_contexts (getNeuron s (id_of ty p))")
  case None
  then show ?thesis by (simp add: record_op_def)
next
  case (Some c0)
  then show ?thesis
    by (auto simp: record_op_def Let_def neurons_hebbian split: result.splits prod.splits
        dest!: neurons_logAccess
        dest: arg_cong [where f = "\<lambda>x. neurons (snd x)"])
qed

lemma find_snoc_None: "find P xs = None \<Longrightarrow> find P (xs @ [x]) = (if P x then Some x else None)"
  by (induction xs) (auto split: if_splits)

lemma find_None_map_id:
  "find (\<lambda>n. nid n = i) xs = None \<Longrightarrow> map (\<lambda>n. if nid n = i then f n else n) xs = xs"
  by (induction xs) (auto split: if_splits)

lemma find_None_filter:
  "find P xs = None \<Longrightarrow> filter P xs = []"
  by (induction xs) (auto split: if_splits)

text \<open>The neuron table after the first and second record of a new id.\<close>

lemma neurons_record_new:
  assumes "getNeuron s (id_of ty p) = None"
  shows "neurons (snd (record_op p ty q now s)) =
     neurons s @ [\<lparr>nid = id_of ty p, ntype = ty, path = p, activation = 1, myelination = 0,
        access_count = 1, last_accessed = Some now, created_at = now,
        contexts = JSON_stringify (push_context q [])\<rparr>]"
  using assms by (simp add: neurons_record_op existing_contexts_def upsertNeuron_def)

lemma neurons_record_twice:
  assumes "getNeuron s (id_of ty p) = None"
  shows "neurons (snd (record_op p ty q2 now2 (snd (record_op p ty q1 now1 s)))) =
     neurons s @ [\<lparr>nid = id_of ty p, ntype = ty, path = p, activation = 1,
        myelination = myelin_update 0,
        access_count = 2, last_accessed = Some now2, created_at = now1,
        contexts = JSON_stringify (push_context q2 (push_context q1 []))\<rparr>]"
proof -
  let ?i = "id_of ty p"
  let ?s1 = "snd (record_op p ty q1 now1 s)"
  let ?row = "\<lparr>nid = ?i, ntype = ty, path = p, activation = 1, myelination = 0,
        access_count = 1, last_accessed = Some now1, created_at = now1,
        contexts = JSON_stringify (push_context q1 [])\<rparr>"
  have n1: "neurons ?s1 = neurons s @ [?row]"
    using assms by (rule neurons_record_new)
  have f: "find (\<lambda>n. nid n = ?i) (neurons s) = None"
    using assms by (simp add: getNeuron_def)
  have g: "getNeuron ?s1 ?i = Some ?row"
    using f by (simp add: getNeuron_def n1 find_snoc_None)
  have e: "existing_contexts (Some ?row) = Some (push_context q1 [])"
    by (simp add: existing_contexts_def JSON_roundtrip JSON_stringify_nonempty)
  have "neurons (snd (record_op p ty q2 now2 ?s1)) =
      neurons (upsertNeuron ?i ty p 1 0 now2
        (JSON_stringify (push_context q2 (push_context q1 []))) (ensureOpen ?s1))"
    by (simp add: neurons_record_op g e)
  also have "\<dots> = map (\<lambda>n. if nid n = ?i
                 then n\<lparr>activation := 1,
                        myelination := myelin_update (myelination n),
                        access_count := access_count n + 1,
                        last_accessed := Some now2,
                        contexts := JSON_stringify (push_context q2 (push_context q1 []))\<rparr>
                 else n) (neurons ?s1)"
    by (simp add: upsertNeuron_def g)
  also have "\<dots> = neurons s @ [\<lparr>nid = ?i, ntype = ty, path = p, activation = 1,
        myelination = myelin_update 0,
        access_count = 2, last_accessed = Some now2, created_at = now1,
        contexts = JSON_stringify (push_context q2 (push_context q1 []))\<rparr>]"
    using f by (simp add: n1 find_None_map_id)
  finally show ?thesis .
qed

subsection \<open>Input that is not validated, text that does not decode\<close>














subsection \<open>Two first-time records in a new database\<close>

lemmas stmt_defs = getNeuron_def upsertNeuron_def upsertSynapse_def logAccess_def
  createSession_def updateSession_def is_edge_def

lemma first_record:
  "record_op p1 t1 q1 n1 (new_BrainBoxDB sid n0) =
   (Ok (), \<lparr>db_open = True,
      neurons = [\<lparr>nid = id_of t1 p1, ntype = t1, path = p1, activation = 1, myelination = 0,
        access_count = 1, last_accessed = Some n1, created_at = n1,
        contexts = JSON_stringify (push_context q1 [])\<rparr>],
      synapses = [],
      access_log = [\<lparr>log_id = 1, neuron_id = id_of t1 p1, session_id = sid,
          query_text = (case q1 of None \<Rightarrow> None | Some q \<Rightarrow> if q = [] then None else Some q),
          timestamp = n1, token_cost = token_cost_of t1, access_order = 1\<rparr>],
      log_seq = 1,
      sessions = [\<lparr>sess_id = sid, started_at = n0, ended_at = None, total_accesses = 1,
              tokens_used = token_cost_of t1, tokens_saved = 0, hit_rate = 0\<rparr>],
      recentAccesses = [id_of t1 p1], sessionId = sid, accessOrder = 1\<rparr>)"
  by (simp add: record_op_def new_BrainBoxDB_def ensureOpen_def existing_contexts_def
      stmt_defs track_def CO_ACCESS_WINDOW_SIZE_def Let_def)

lemma second_record:
  assumes "id_of t1 p1 \<noteq> id_of t2 p2"
  shows "record_op p2 t2 q2 n2 (snd (record_op p1 t1 q1 n1 (new_BrainBoxDB sid n0))) =
   (Ok (), \<lparr>db_open = True,
      neurons = [\<lparr>nid = id_of t1 p1, ntype = t1, path = p1, activation = 1, myelination = 0,
        access_count = 1, last_accessed = Some n1, created_at = n1,
        contexts = JSON_stringify (push_context q1 [])\<rparr>,
        \<lparr>nid = id_of t2 p2, ntype = t2, path = p2, activation = 1, myelination = 0,
        access_count = 1, last_accessed = Some n2, created_at = n2,
        contexts = JSON_stringify (push_context q2 [])\<rparr>],
      synapses = [\<lparr>source_id = id_of t2 p2, target_id = id_of t1 p1, weight = 0.1,
           co_access_count = 1, last_fired = Some n2, syn_created_at = n2\<rparr>,
         \<lparr>source_id = id_of t1 p1, target_id = id_of t2 p2, weight = 0.1,
           co_access_count = 1, last_fired = Some n2, syn_created_at = n2\<rparr>],
      access_log = [\<lparr>log_id = 1, neuron_id = id_of t1 p1, session_id = sid,
          query_text = (case q1 of None \<Rightarrow> None | Some q \<Rightarrow> if q = [] then None else Some q),
          timestamp = n1, token_cost = token_cost_of t1, access_order = 1\<rparr>,
         \<lparr>log_id = 2, neuron_id = id_of t2 p2, session_id = sid,
          query_text = (case q2 of None \<Rightarrow> None | Some q \<Rightarrow> if q = [] then None else Some q),
          timestamp = n2, token_cost = token_cost_of t2, access_order = 2\<rparr>],
      log_seq = 2,
      sessions = [\<lparr>sess_id = sid, started_at = n0, ended_at = None, total_accesses = 2,
              tokens_used = token_cost_of t1 + token_cost_of t2, tokens_saved = 0, hit_rate = 0\<rparr>],
      recentAccesses = [id_of t1 p1, id_of t2 p2], sessionId = sid, accessOrder = 2\<rparr>)"
  using assms
  by (simp add: first_record)
     (simp add: record_op_def ensureOpen_def existing_contexts_def
      stmt_defs track_def CO_ACCESS_WINDOW_SIZE_def LEARNING_RATE_def Let_def)

subsection \<open>Repeated decay of a freshly recorded pair\<close>

lemma decays_0 [simp]: "decays 0 s = s"
  by (simp add: decays_def run_def)

lemma decays_Suc: "decays (Suc k) s = snd (decay (decays k s))"
proof -
  have "replicate (Suc k) Decay = replicate k Decay @ [Decay]"
    by (simp add: replicate_append_same)
  then show ?thesis
    by (simp add: decays_def run_def del: replicate_Suc)
qed

lemma decays_add: "decays (k + j) s = decays j (decays k s)"
  by (simp add: decays_def run_def replicate_add)

lemma pair_shapeD:
  assumes "pair_shape x w ia ib s"
  obtains a b r1 r2 where "neurons s = [a, b]" "synapses s = [r1, r2]"
    "nid a = ia" "nid b = ib" "activation a = x" "activation b = x"
    "myelination a = 0" "myelination b = 0" "access_count a = 1" "access_count b = 1"
    "source_id r1 = ib" "target_id r1 = ia" "source_id r2 = ia" "target_id r2 = ib"
    "weight r1 = w" "weight r2 = w"
proof -
  from assms obtain a b where n: "neurons s = [a, b]"
    by (auto simp: pair_shape_def)
  from assms obtain r1 r2 where r: "synapses s = [r1, r2]"
    by (auto simp: pair_shape_def)
  from assms n r show ?thesis
    by (intro that [of a b r1 r2]) (simp_all add: pair_shape_def)
qed

lemmas decay_stmt_defs = decay_def decayAll_def decaySynapses_def pruneSynapses_def
  pruneNeurons_def ensureOpen_def

lemma neurons_decay:
  "neurons (snd (decay s)) = filter (\<lambda>n. \<not> prunable n) (decayed_neurons s)"
  by (simp add: decay_stmt_defs decayed_neurons_def Let_def)

lemma synapses_decay:
  "synapses (snd (decay s)) =
     filter (\<lambda>r. source_id r \<notin> set (map nid (filter prunable (decayed_neurons s))) \<and>
                target_id r \<notin> set (map nid (filter prunable (decayed_neurons s))))
       (filter (\<lambda>r. \<not> weight r < SYNAPSE_PRUNE_THRESHOLD) (decayed_synapses s))"
  by (simp add: decay_stmt_defs decayed_neurons_def decayed_synapses_def Let_def)

lemma counts_decay:
  "fst (decay s) =
     (length (filter (\<lambda>r. weight r < SYNAPSE_PRUNE_THRESHOLD) (decayed_synapses s)),
      length (filter prunable (decayed_neurons s)))"
  by (simp add: decay_stmt_defs decayed_neurons_def decayed_synapses_def Let_def)

lemma pair_shape_decay_live:
  assumes "pair_shape x w ia ib s" "\<not> x * 0.85 < 0.01" "\<not> w * 0.98 < 0.05"
  shows "pair_shape (x * 0.85) (w * 0.98) ia ib (snd (decay s)) \<and> fst (decay s) = (0, 0)"
proof -
  from assms(1) obtain a b r1 r2 where h: "neurons s = [a, b]" "synapses s = [r1, r2]"
    and i: "nid a = ia" "nid b = ib"
      "source_id r1 = ib" "target_id r1 = ia" "source_id r2 = ia" "target_id r2 = ib"
    and v: "activation a = x" "activation b = x"
      "myelination a = 0" "myelination b = 0" "access_count a = 1" "access_count b = 1"
      "weight r1 = w" "weight r2 = w"
    by (rule pair_shapeD)
  let ?dn = "\<lambda>n. n\<lparr>activation := activation n * (1 - ACTIVATION_DECAY_RATE),
                    myelination := myelination n * (1 - MYELIN_DECAY_RATE)\<rparr>"
  let ?dr = "\<lambda>r. r\<lparr>weight := weight r * (1 - SYNAPSE_DECAY_RATE)\<rparr>"
  have dn: "decayed_neurons s = [?dn a, ?dn b]"
    and dr: "decayed_synapses s = [?dr r1, ?dr r2]"
    by (simp_all add: decayed_neurons_def decayed_synapses_def h)
  have p: "\<not> prunable (?dn a)" "\<not> prunable (?dn b)"
    using assms(2) by (simp_all add: prunable_def v ACTIVATION_DECAY_RATE_def)
  have q: "\<not> weight (?dr r1) < SYNAPSE_PRUNE_THRESHOLD"
    "\<not> weight (?dr r2) < SYNAPSE_PRUNE_THRESHOLD"
    using assms(3) by (simp_all add: v SYNAPSE_DECAY_RATE_def SYNAPSE_PRUNE_THRESHOLD_def)
  have g: "filter prunable (decayed_neurons s) = []"
    unfolding dn using p by (simp only: filter.simps if_False)
  have k: "filter (\<lambda>n. \<not> prunable n) (decayed_neurons s) = [?dn a, ?dn b]"
    unfolding dn using p by (simp only: filter.simps if_True simp_thms)
  have f: "filter (\<lambda>r. \<not> weight r < SYNAPSE_PRUNE_THRESHOLD) (decayed_synapses s) = [?dr r1, ?dr r2]"
    unfolding dr using q by (simp only: filter.simps if_True simp_thms)
  have f': "filter (\<lambda>r. weight r < SYNAPSE_PRUNE_THRESHOLD) (decayed_synapses s) = []"
    unfolding dr using q by (simp only: filter.simps if_False)
  have n: "neurons (snd (decay s)) = [?dn a, ?dn b]"
    by (simp only: neurons_decay k)
  have r: "synapses (snd (decay s)) = [?dr r1, ?dr r2]"
    by (simp add: synapses_decay g f del: set_filter)
  have c: "fst (decay s) = (0, 0)"
    by (simp add: counts_decay g f')
  show ?thesis
    unfolding pair_shape_def n r c
    by (simp add: i v ACTIVATION_DECAY_RATE_def SYNAPSE_DECAY_RATE_def)
qed

lemma pair_shape_decay_dead:
  assumes "pair_shape x w ia ib s" "x * 0.85 < 0.01" "\<not> w * 0.98 < 0.05"
  shows "neurons (snd (decay s)) = [] \<and> synapses (snd (decay s)) = [] \<and> fst (decay s) = (0, 2)"
proof -
  from assms(1) obtain a b r1 r2 where h: "neurons s = [a, b]" "synapses s = [r1, r2]"
    and i: "nid a = ia" "nid b = ib"
      "source_id r1 = ib" "target_id r1 = ia" "source_id r2 = ia" "target_id r2 = ib"
    and v: "activation a = x" "activation b = x"
      "myelination a = 0" "myelination b = 0" "access_count a = 1" "access_count b = 1"
      "weight r1 = w" "weight r2 = w"
    by (rule pair_shapeD)
  let ?dn = "\<lambda>n. n\<lparr>activation := activation n * (1 - ACTIVATION_DECAY_RATE),
                    myelination := myelination n * (1 - MYELIN_DECAY_RATE)\<rparr>"
  let ?dr = "\<lambda>r. r\<lparr>weight := weight r * (1 - SYNAPSE_DECAY_RATE)\<rparr>"
  have dn: "decayed_neurons s = [?dn a, ?dn b]"
    and dr: "decayed_synapses s = [?dr r1, ?dr r2]"
    by (simp_all add: decayed_neurons_def decayed_synapses_def h)
  have p: "prunable (?dn a)" "prunable (?dn b)"
    using assms(2) by (simp_all add: prunable_def v ACTIVATION_DECAY_RATE_def)
  have q: "\<not> weight (?dr r1) < SYNAPSE_PRUNE_THRESHOLD"
    "\<not> weight (?dr r2) < SYNAPSE_PRUNE_THRESHOLD"
    using assms(3) by (simp_all add: v SYNAPSE_DECAY_RATE_def SYNAPSE_PRUNE_THRESHOLD_def)
  have g: "filter prunable (decayed_neurons s) = [?dn a, ?dn b]"
    unfolding dn using p by (simp only: filter.simps if_True)
  have k: "filter (\<lambda>n. \<not> prunable n) (decayed_neurons s) = []"
    unfolding dn using p by (simp only: filter.simps if_False simp_thms)
  have f: "filter (\<lambda>r. \<not> weight r < SYNAPSE_PRUNE_THRESHOLD) (decayed_synapses s) = [?dr r1, ?dr r2]"
    unfolding dr using q by (simp only: filter.simps if_True simp_thms)
  have f': "filter (\<lambda>r. weight r < SYNAPSE_PRUNE_THRESHOLD) (decayed_synapses s) = []"
    unfolding dr using q by (simp only: filter.simps if_False)
  have n: "neurons (snd (decay s)) = []"
    by (simp only: neurons_decay k)
  have r: "synapses (snd (decay s)) = []"
    by (simp add: synapses_decay g f i del: set_filter)
  have c: "fst (decay s) = (0, 2)"
    by (simp add: counts_decay g f')
  from n r c show ?thesis by simp
qed

lemma decay_empty:
  assumes "neurons s = []" "synapses s = []"
  shows "neurons (snd (decay s)) = [] \<and> synapses (snd (decay s)) = []"
  using assms
  by (simp add: decay_stmt_defs Let_def)

lemma decays_empty:
  assumes "neurons s = []" "synapses s = []"
  shows "neurons (decays k s) = [] \<and> synapses (decays k s) = []"
  using assms by (induction k) (simp_all add: decays_Suc decay_empty)

lemma pow85: "k \<le> 28 \<Longrightarrow> \<not> (0.85::real) ^ k < 0.01"
proof -
  assume "k \<le> 28"
  then have "(0.85::real) ^ 28 \<le> 0.85 ^ k" by (intro power_decreasing) simp_all
  moreover have "(0.01::real) \<le> 0.85 ^ 28" by (simp add: power_divide)
  ultimately show ?thesis by linarith
qed

lemma pow98: "k \<le> 29 \<Longrightarrow> \<not> 0.1 * (0.98::real) ^ k < 0.05"
proof -
  assume "k \<le> 29"
  then have "(0.98::real) ^ 29 \<le> 0.98 ^ k" by (intro power_decreasing) simp_all
  moreover have "(0.05::real) \<le> 0.1 * 0.98 ^ 29" by (simp add: power_divide)
  ultimately show ?thesis by linarith
qed

lemma pow85_29: "(0.85::real) ^ 29 < 0.01"
  by (simp add: power_divide)

lemma decays_live:
  assumes "pair_shape 1 0.1 ia ib s"
  shows "k \<le> 28 \<Longrightarrow> pair_shape (0.85 ^ k) (0.1 * 0.98 ^ k) ia ib (decays k s)"
proof (induction k)
  case 0
  with assms show ?case by simp
next
  case (Suc k)
  then have ih: "pair_shape (0.85 ^ k) (0.1 * 0.98 ^ k) ia ib (decays k s)" by simp
  have a: "\<not> (0.85::real) ^ k * 0.85 < 0.01"
    using pow85 [of "Suc k"] Suc.prems by (simp add: mult.commute)
  have b: "\<not> 0.1 * (0.98::real) ^ k * 0.98 < 0.05"
    using pow98 [of "Suc k"] Suc.prems by (simp add: mult.commute mult.left_commute)
  from pair_shape_decay_live [OF ih a b]
  show ?case by (simp add: decays_Suc mult.commute mult.left_commute)
qed

lemma decays_29:
  assumes "pair_shape 1 0.1 ia ib s"
  shows "neurons (decays 29 s) = [] \<and> synapses (decays 29 s) = [] \<and>
         fst (decay (decays 28 s)) = (0, 2)"
proof -
  have l: "pair_shape (0.85 ^ 28) (0.1 * 0.98 ^ 28) ia ib (decays 28 s)"
    using assms by (rule decays_live) simp
  have a: "(0.85::real) ^ 28 * 0.85 < 0.01"
    using pow85_29 by (simp add: power_divide)
  have b: "\<not> 0.1 * (0.98::real) ^ 28 * 0.98 < 0.05"
    using pow98 [of 29] by (simp add: power_divide)
  have "decays 29 s = snd (decay (decays 28 s))"
    using decays_Suc [of 28 s] by simp
  with pair_shape_decay_dead [OF l a b] show ?thesis by simp
qed

lemma decays_dead:
  assumes "pair_shape 1 0.1 ia ib s" "29 \<le> k"
  shows "neurons (decays k s) = [] \<and> synapses (decays k s) = []"
proof -
  from assms(2) obtain j where k: "k = 29 + j" using le_Suc_ex by blast
  from decays_29 [OF assms(1)] show ?thesis
    unfolding k decays_add by (intro decays_empty) simp_all
qed

lemma pair_shape_second_record:
  assumes "id_of t1 p1 \<noteq> id_of t2 p2"
  shows "pair_shape 1 0.1 (id_of t1 p1) (id_of t2 p2)
    (snd (record_op p2 t2 q2 n2 (snd (record_op p1 t1 q1 n1 (new_BrainBoxDB sid n0)))))"
  by (simp add: second_record [OF assms] pair_shape_def)

subsection \<open>Recall after the Hebbian pair\<close>

lemma kw_foo: "keywords_of ''foo'' = [''foo'']"
  by code_simp

lemma like_foo: "like ''%foo%'' (JSON_stringify [''grep foo''])"
  by code_simp

lemma incl_foo: "includes_str (toLowerCase ''grep foo'') ''foo''"
  by code_simp

lemma incl_x: "\<not> includes_str (toLowerCase ''/x'') ''foo''" "\<not> includes_str (toLowerCase ''/y'') ''foo''"
  by code_simp+

lemma conf_row:
  assumes "contexts n = JSON_stringify [''grep foo'']" "myelination n = 0"
    "last_accessed n = Some t" "path n = ''/x'' \<or> path n = ''/y''"
  shows "computeConfidence n ''foo'' nowMs = Ok (direct_conf nowMs t)"
proof -
  have p: "\<not> includes_str (toLowerCase (path n)) ''foo''"
    using assms(4) incl_x by auto
  show ?thesis
    by (simp add: computeConfidence_def assms(1,2,3) JSON_roundtrip kw_foo incl_foo p
      ratio_def Let_def recency_def direct_conf_def)
qed

lemma conf_gate: "\<not> direct_conf nowMs t < CONFIDENCE_GATE" "0.4 \<le> direct_conf nowMs t"
proof -
  have "0 \<le> recency nowMs t" by (simp add: recency_def)
  then show "\<not> direct_conf nowMs t < CONFIDENCE_GATE" "0.4 \<le> direct_conf nowMs t"
    by (simp_all add: CONFIDENCE_GATE_def direct_conf_def min_def)
qed

lemma hebb_state:
  "neurons (hebb sid t0 n1 n2) =
     [\<lparr>nid = ''file:/x'', ntype = ''file'', path = ''/x'', activation = 1, myelination = 0,
        access_count = 1, last_accessed = Some n1, created_at = n1,
        contexts = JSON_stringify [''grep foo'']\<rparr>,
      \<lparr>nid = ''file:/y'', ntype = ''file'', path = ''/y'', activation = 1, myelination = 0,
        access_count = 1, last_accessed = Some n2, created_at = n2,
        contexts = JSON_stringify [''grep foo'']\<rparr>]"
  "synapses (hebb sid t0 n1 n2) =
     [\<lparr>source_id = ''file:/y'', target_id = ''file:/x'', weight = 0.1,
           co_access_count = 1, last_fired = Some n2, syn_created_at = n2\<rparr>,
      \<lparr>source_id = ''file:/x'', target_id = ''file:/y'', weight = 0.1,
           co_access_count = 1, last_fired = Some n2, syn_created_at = n2\<rparr>]"
proof -
  have d: "id_of ''file'' ''/x'' \<noteq> id_of ''file'' ''/y''" by (simp add: id_of_def)
  show "neurons (hebb sid t0 n1 n2) =
     [\<lparr>nid = ''file:/x'', ntype = ''file'', path = ''/x'', activation = 1, myelination = 0,
        access_count = 1, last_accessed = Some n1, created_at = n1,
        contexts = JSON_stringify [''grep foo'']\<rparr>,
      \<lparr>nid = ''file:/y'', ntype = ''file'', path = ''/y'', activation = 1, myelination = 0,
        access_count = 1, last_accessed = Some n2, created_at = n2,
        contexts = JSON_stringify [''grep foo'']\<rparr>]"
    unfolding hebb_def second_record [OF d]
    by (simp add: id_of_def push_context_def)
  show "synapses (hebb sid t0 n1 n2) =
     [\<lparr>source_id = ''file:/y'', target_id = ''file:/x'', weight = 0.1,
           co_access_count = 1, last_fired = Some n2, syn_created_at = n2\<rparr>,
      \<lparr>source_id = ''file:/x'', target_id = ''file:/y'', weight = 0.1,
           co_access_count = 1, last_fired = Some n2, syn_created_at = n2\<rparr>]"
    unfolding hebb_def second_record [OF d]
    by (simp add: id_of_def)
qed

lemma hebb_direct:
  "directMatches (keywords_of ''foo'') (ensureOpen (hebb sid t0 n1 n2)) = neurons (hebb sid t0 n1 n2)"
  by (simp add: kw_foo directMatches_def searchByContext_def add_matches_def hebb_state like_foo)

lemma hebb_phase1:
  "phase1 ''file'' ''foo'' nowMs (neurons (hebb sid t0 n1 n2)) ({}, []) =
     Ok ({''file:/x'', ''file:/y''},
         [\<lparr>r_neuron = hd (neurons (hebb sid t0 n1 n2)), r_contexts = [''grep foo''],
            confidence = direct_conf nowMs n1, activation_path = ''direct''\<rparr>,
          \<lparr>r_neuron = last (neurons (hebb sid t0 n1 n2)), r_contexts = [''grep foo''],
            confidence = direct_conf nowMs n2, activation_path = ''direct''\<rparr>])"
  by (simp add: hebb_state conf_row conf_gate parseNeuron_def JSON_roundtrip insert_commute)

lemma hebb_phase2:
  assumes "nid (r_neuron ra) = ''file:/x''" "nid (r_neuron rb) = ''file:/y''"
  shows "phase2 ''file'' (ensureOpen (hebb sid t0 n1 n2)) [ra, rb] (A, R) = Ok (A, R)"
  by (simp add: assms getSynapses_def ensureOpen_def hebb_state)

lemma hebb_top:
  "topByMyelination (Some ''file'') 3 (ensureOpen (hebb sid t0 n1 n2)) = neurons (hebb sid t0 n1 n2)"
  by (simp add: topByMyelination_def ensureOpen_def hebb_state)

lemma hebb_recall:
  "\<exists>rx ry. nid (r_neuron rx) = ''file:/x'' \<and> nid (r_neuron ry) = ''file:/y'' \<and>
     activation_path rx = ''direct'' \<and> activation_path ry = ''direct'' \<and>
     confidence rx = direct_conf nowMs n1 \<and> confidence ry = direct_conf nowMs n2 \<and>
     fst (recall ''foo'' ''file'' 5 nowMs (hebb sid t0 n1 n2)) =
       Ok (if direct_conf nowMs n2 \<le> direct_conf nowMs n1 then [rx, ry] else [ry, rx])"
proof -
  let ?rx = "\<lparr>r_neuron = hd (neurons (hebb sid t0 n1 n2)), r_contexts = [''grep foo''],
            confidence = direct_conf nowMs n1, activation_path = ''direct''\<rparr>"
  let ?ry = "\<lparr>r_neuron = last (neurons (hebb sid t0 n1 n2)), r_contexts = [''grep foo''],
            confidence = direct_conf nowMs n2, activation_path = ''direct''\<rparr>"
  have ix: "nid (r_neuron ?rx) = ''file:/x''" and iy: "nid (r_neuron ?ry) = ''file:/y''"
    by (simp_all add: hebb_state)
  have p2: "phase2 ''file'' (ensureOpen (hebb sid t0 n1 n2)) [?rx, ?ry] ({''file:/x'', ''file:/y''}, [?rx, ?ry])
      = Ok ({''file:/x'', ''file:/y''}, [?rx, ?ry])"
    by (rule hebb_phase2 [OF ix iy])
  have fb: "fallback (neurons (hebb sid t0 n1 n2)) {''file:/x'', ''file:/y''} [?rx, ?ry] = Ok [?rx, ?ry]"
    by (simp add: hebb_state)
  have so: "sort_results [?rx, ?ry] =
      (if direct_conf nowMs n2 \<le> direct_conf nowMs n1 then [?rx, ?ry] else [?ry, ?rx])"
    by (simp add: sort_results_def)
  have "fst (recall ''foo'' ''file'' 5 nowMs (hebb sid t0 n1 n2)) =
      Ok (if direct_conf nowMs n2 \<le> direct_conf nowMs n1 then [?rx, ?ry] else [?ry, ?rx])"
    by (simp add: recall_def Let_def hebb_direct hebb_phase1 p2 hebb_top fb so js_slice0_def
        del: phase2.simps fallback.simps)
  with ix iy show ?thesis
    by (intro exI [of _ ?rx] exI [of _ ?ry]) simp
qed

subsection \<open>The numeric ranges are invariant\<close>

lemma myelin_update_range:
  "0 \<le> m \<Longrightarrow> m \<le> MYELIN_MAX \<Longrightarrow> 0 \<le> myelin_update m \<and> myelin_update m \<le> MYELIN_MAX"
  by (simp add: myelin_update_def MYELIN_RATE_def MYELIN_MAX_def min_def)

lemma strengthen_range:
  assumes "0 \<le> d" "d \<le> 1" "0 \<le> w" "w \<le> 1"
  shows "0 \<le> strengthen d w \<and> strengthen d w \<le> 1"
proof -
  have "0 \<le> d * (1 - w)" using assms by simp
  with assms(3) have "0 \<le> w + d * (1 - w)" by linarith
  then show ?thesis by (simp add: strengthen_def min_def)
qed

lemma list_all_map_if:
  "list_all P xs \<Longrightarrow> (\<And>x. P x \<Longrightarrow> P (f x)) \<Longrightarrow>
   list_all P (map (\<lambda>x. if c x then f x else x) xs)"
  by (induction xs) auto

lemma neurons_ok_upsert:
  assumes "list_all neuron_ok (neurons s)"
  shows "list_all neuron_ok (neurons (upsertNeuron i ty p 1
            (case getNeuron s i of None \<Rightarrow> 0 | Some e \<Rightarrow> myelination e) now ctx (ensureOpen s)))"
proof (cases "getNeuron s i")
  case None
  with assms show ?thesis
    by (simp add: upsertNeuron_def neuron_ok_def MYELIN_MAX_def)
next
  case (Some e)
  have "\<And>n. neuron_ok n \<Longrightarrow>
      neuron_ok (n\<lparr>activation := 1, myelination := myelin_update (myelination n),
                   access_count := access_count n + 1, last_accessed := Some now,
                   contexts := ctx\<rparr>)"
    using myelin_update_range by (simp add: neuron_ok_def)
  with assms have "list_all neuron_ok (map (\<lambda>n. if nid n = i
      then n\<lparr>activation := 1, myelination := myelin_update (myelination n),
                   access_count := access_count n + 1, last_accessed := Some now,
                   contexts := ctx\<rparr> else n) (neurons s))"
    by (intro list_all_map_if)
  with Some show ?thesis
    by (simp add: upsertNeuron_def)
qed

lemma neurons_ok_record_op:
  assumes "list_all neuron_ok (neurons s)"
  shows "list_all neuron_ok (neurons (snd (record_op p ty q now s)))"
  using assms neurons_ok_upsert [OF assms]
  by (simp add: neurons_record_op split: option.splits)

lemma synapses_ok_upsertSynapse:
  assumes "upsertSynapse src tgt w d now s = Ok s'" "0 \<le> w" "w \<le> 1" "0 \<le> d" "d \<le> 1"
    "list_all synapse_ok (synapses s)"
  shows "list_all synapse_ok (synapses s')"
proof (cases "find (is_edge src tgt) (synapses s)")
  case None
  with assms show ?thesis
    by (auto simp: upsertSynapse_def synapse_ok_def split: if_splits)
next
  case (Some e)
  have "\<And>r. synapse_ok r \<Longrightarrow>
      synapse_ok (r\<lparr>weight := strengthen d (weight r),
                    co_access_count := co_access_count r + 1, last_fired := Some now\<rparr>)"
    using strengthen_range [OF assms(4,5)] by (simp add: synapse_ok_def)
  with assms(6) have "list_all synapse_ok (map (\<lambda>r. if is_edge src tgt r
      then r\<lparr>weight := strengthen d (weight r),
                    co_access_count := co_access_count r + 1, last_fired := Some now\<rparr>
      else r) (synapses s))"
    by (intro list_all_map_if)
  with assms(1) Some show ?thesis
    by (auto simp: upsertSynapse_def)
qed

lemma delta_range:
  assumes "k < len"
  shows "0 \<le> LEARNING_RATE * (real (k + 1) / real len) \<and>
         LEARNING_RATE * (real (k + 1) / real len) \<le> 1"
proof -
  from assms have "real (k + 1) / real len \<le> 1" by simp
  moreover have "0 \<le> real (k + 1) / real len" by simp
  ultimately show ?thesis
    unfolding LEARNING_RATE_def by linarith
qed

lemma synapses_ok_hebbian:
  assumes "list_all synapse_ok (synapses s)" "k + length rest \<le> len"
  shows "list_all synapse_ok (synapses (snd (hebbian i now len k rest s)))"
  using assms
proof (induction rest arbitrary: k s)
  case Nil
  then show ?case by simp
next
  case (Cons r rest)
  from Cons.prems(2) have k: "k < len" and k': "(k + 1) + length rest \<le> len" by simp_all
  let ?d = "LEARNING_RATE * (real (k + 1) / real len)"
  note d = delta_range [OF k]
  show ?case
  proof (cases "r = i")
    case True
    with Cons.IH [OF Cons.prems(1) k'] show ?thesis by simp
  next
    case False
    show ?thesis
    proof (cases "upsertSynapse i r ?d ?d now s")
      case (Raised e)
      with False Cons.prems(1) show ?thesis by (simp add: Let_def)
    next
      case (Ok s1)
      have o1: "list_all synapse_ok (synapses s1)"
        using synapses_ok_upsertSynapse [OF Ok _ _ _ _ Cons.prems(1)] d by simp
      show ?thesis
      proof (cases "upsertSynapse r i ?d ?d now s1")
        case (Raised e)
        with False Ok o1 show ?thesis by (simp add: Let_def)
      next
        case Ok2: (Ok s2)
        have o2: "list_all synapse_ok (synapses s2)"
          using synapses_ok_upsertSynapse [OF Ok2 _ _ _ _ o1] d by simp
        from Cons.IH [OF o2 k'] False Ok Ok2 show ?thesis by (simp add: Let_def)
      qed
    qed
  qed
qed

lemma synapses_upsertNeuron [simp]:
  "synapses (upsertNeuron i ty p a m now ctx s) = synapses s"
  by (simp add: upsertNeuron_def split: option.splits)

lemma synapses_logAccess: "logAccess i sid q now c ord s = Ok s' \<Longrightarrow> synapses s' = synapses s"
  by (auto simp: logAccess_def split: if_splits)

lemma synapses_updateSession [simp]: "synapses (updateSession sid u s) = synapses s"
  by (simp add: updateSession_def)

lemma synapses_ensureOpen [simp]: "synapses (ensureOpen s) = synapses s"
  by (simp add: ensureOpen_def)

lemma synapses_ok_record_op:
  assumes "list_all synapse_ok (synapses s)"
  shows "list_all synapse_ok (synapses (snd (record_op p ty q now s)))"
proof (cases "existing_contexts (getNeuron s (id_of ty p))")
  case None
  with assms show ?thesis by (simp add: record_op_def)
next
  case (Some c0)
  let ?s2 = "(upsertNeuron (id_of ty p) ty p 1
               (case getNeuron s (id_of ty p) of None \<Rightarrow> 0 | Some e \<Rightarrow> myelination e)
               now (JSON_stringify (push_context q c0)) (ensureOpen s))
             \<lparr>accessOrder := accessOrder (upsertNeuron (id_of ty p) ty p 1
               (case getNeuron s (id_of ty p) of None \<Rightarrow> 0 | Some e \<Rightarrow> myelination e)
               now (JSON_stringify (push_context q c0)) (ensureOpen s)) + 1\<rparr>"
  have s2: "list_all synapse_ok (synapses ?s2)" using assms by simp
  show ?thesis
  proof (cases "logAccess (id_of ty p) (sessionId ?s2)
                  (case q of None \<Rightarrow> None | Some q \<Rightarrow> if q = [] then None else Some q)
                  now (token_cost_of ty) (accessOrder ?s2) ?s2")
    case (Raised e)
    with Some s2 show ?thesis by (simp add: record_op_def Let_def)
  next
    case (Ok s3)
    from synapses_logAccess [OF Ok] s2 have s3: "list_all synapse_ok (synapses s3)" by simp
    have h: "list_all synapse_ok
        (synapses (snd (hebbian (id_of ty p) now (length (recentAccesses s3)) 0 (recentAccesses s3) s3)))"
      using s3 by (rule synapses_ok_hebbian) simp
    obtain out s4 where hb: "hebbian (id_of ty p) now (length (recentAccesses s3)) 0 (recentAccesses s3) s3 = (out, s4)"
      by (cases "hebbian (id_of ty p) now (length (recentAccesses s3)) 0 (recentAccesses s3) s3")
    with h have s4: "list_all synapse_ok (synapses s4)" by simp
    show ?thesis
      using Some Ok hb s4
      by (cases out) (simp_all add: record_op_def Let_def)
  qed
qed

lemma in_range_record_op: "in_range s \<Longrightarrow> in_range (snd (record_op p ty q now s))"
  by (simp add: in_range_def neurons_ok_record_op synapses_ok_record_op)

lemma in_range_decay: "in_range s \<Longrightarrow> in_range (snd (decay s))"
proof -
  assume a: "in_range s"
  have n: "\<And>n. neuron_ok n \<Longrightarrow>
      neuron_ok (n\<lparr>activation := activation n * (1 - ACTIVATION_DECAY_RATE),
                   myelination := myelination n * (1 - MYELIN_DECAY_RATE)\<rparr>)"
  proof -
    fix n assume "neuron_ok n"
    then have h: "0 \<le> activation n" "activation n \<le> 1" "0 \<le> myelination n"
      "myelination n \<le> MYELIN_MAX" by (simp_all add: neuron_ok_def)
    have "activation n * (1 - ACTIVATION_DECAY_RATE) \<le> activation n"
      using h(1) by (simp add: ACTIVATION_DECAY_RATE_def mult_left_le)
    moreover have "myelination n * (1 - MYELIN_DECAY_RATE) \<le> myelination n"
      using h(3) by (simp add: MYELIN_DECAY_RATE_def mult_left_le)
    ultimately show "neuron_ok (n\<lparr>activation := activation n * (1 - ACTIVATION_DECAY_RATE),
                   myelination := myelination n * (1 - MYELIN_DECAY_RATE)\<rparr>)"
      using h by (simp add: neuron_ok_def ACTIVATION_DECAY_RATE_def MYELIN_DECAY_RATE_def)
  qed
  have r: "\<And>r. synapse_ok r \<Longrightarrow> synapse_ok (r\<lparr>weight := weight r * (1 - SYNAPSE_DECAY_RATE)\<rparr>)"
  proof -
    fix r assume "synapse_ok r"
    then have h: "0 \<le> weight r" "weight r \<le> 1" by (simp_all add: synapse_ok_def)
    have "weight r * (1 - SYNAPSE_DECAY_RATE) \<le> weight r"
      using h(1) by (simp add: SYNAPSE_DECAY_RATE_def mult_left_le)
    then show "synapse_ok (r\<lparr>weight := weight r * (1 - SYNAPSE_DECAY_RATE)\<rparr>)"
      using h by (simp add: synapse_ok_def SYNAPSE_DECAY_RATE_def)
  qed
  from a n have dn: "list_all neuron_ok (decayed_neurons s)"
    by (simp add: in_range_def decayed_neurons_def list_all_iff)
  from a r have dr: "list_all synapse_ok (decayed_synapses s)"
    by (simp add: in_range_def decayed_synapses_def list_all_iff)
  from dn dr show ?thesis
    unfolding in_range_def neurons_decay synapses_decay
    by (simp add: list_all_iff)
qed

lemma in_range_new: "in_range (new_BrainBoxDB sid now)"
  by (simp add: in_range_def new_BrainBoxDB_def createSession_def)

lemma in_range_run: "in_range s \<Longrightarrow> in_range (run cs s)"
proof (induction cs arbitrary: s)
  case Nil
  then show ?case by (simp add: run_def)
next
  case (Cons c cs)
  have "in_range (apply_call s c)"
    using Cons.prems by (cases c) (simp_all add: in_range_record_op in_range_decay)
  from Cons.IH [OF this] show ?case by (simp add: run_def)
qed

subsection \<open>The synapse table stays symmetric\<close>

lemma find_is_edge_None: "find (is_edge a b) rows = None \<longleftrightarrow> (a, b) \<notin> set (map edge_key rows)"
  by (induction rows) (auto simp: is_edge_def edge_key_def)

lemma find_map_weight:
  "map_option weight (find (is_edge x y) (map (\<lambda>r. if is_edge a b r then f r else r) rows)) =
   map_option (\<lambda>r. if x = a \<and> y = b then weight (f r) else weight r) (find (is_edge x y) rows)"
  if "\<And>r. source_id (f r) = source_id r" "\<And>r. target_id (f r) = target_id r"
  using that by (induction rows) (auto simp: is_edge_def)

lemma find_snoc:
  "find P (xs @ [x]) = (case find P xs of Some v \<Rightarrow> Some v | None \<Rightarrow> if P x then Some x else None)"
  by (induction xs) auto

text \<open>The weight table after a successful \<open>upsertSynapse\<close>.\<close>

lemma synapse_weight_upsert:
  assumes "upsertSynapse a b w d now s = Ok s'"
  shows "synapse_weight s' x y =
     (if x = a \<and> y = b
      then Some (case synapse_weight s a b of None \<Rightarrow> w | Some v \<Rightarrow> strengthen d v)
      else synapse_weight s x y)"
proof (cases "find (is_edge a b) (synapses s)")
  case None
  with assms have s': "synapses s' = synapses s @
            [\<lparr>source_id = a, target_id = b, weight = w, co_access_count = 1,
              last_fired = Some now, syn_created_at = now\<rparr>]"
    by (auto simp: upsertSynapse_def split: if_splits)
  show ?thesis
    using None
    by (auto simp: synapse_weight_def s' find_snoc is_edge_def split: option.splits)
next
  case (Some e)
  with assms have s': "synapses s' = map (\<lambda>r. if is_edge a b r
                 then r\<lparr>weight := strengthen d (weight r),
                        co_access_count := co_access_count r + 1,
                        last_fired := Some now\<rparr>
                 else r) (synapses s)"
    by (auto simp: upsertSynapse_def)
  show ?thesis
    unfolding synapse_weight_def s'
    by (subst find_map_weight) (auto simp: Some split: option.splits)
qed

lemma distinct_upsert:
  assumes "upsertSynapse a b w d now s = Ok s'" "distinct (map edge_key (synapses s))"
  shows "distinct (map edge_key (synapses s'))"
proof (cases "find (is_edge a b) (synapses s)")
  case None
  with assms(1) have s': "synapses s' = synapses s @
            [\<lparr>source_id = a, target_id = b, weight = w, co_access_count = 1,
              last_fired = Some now, syn_created_at = now\<rparr>]"
    by (auto simp: upsertSynapse_def split: if_splits)
  from None find_is_edge_None [of a b "synapses s"]
  have "(a, b) \<notin> set (map edge_key (synapses s))"
    by simp
  moreover have "edge_key \<lparr>source_id = a, target_id = b, weight = w, co_access_count = 1,
              last_fired = Some now, syn_created_at = now\<rparr> = (a, b)"
    by (simp add: edge_key_def)
  ultimately show ?thesis
    using assms(2) by (simp add: s')
next
  case (Some e)
  with assms(1) have s': "synapses s' = map (\<lambda>r. if is_edge a b r
                 then r\<lparr>weight := strengthen d (weight r),
                        co_access_count := co_access_count r + 1,
                        last_fired := Some now\<rparr>
                 else r) (synapses s)"
    by (auto simp: upsertSynapse_def)
  have "map edge_key (synapses s') = map edge_key (synapses s)"
    unfolding s' by (induction "synapses s") (auto simp: edge_key_def)
  with assms(2) show ?thesis by simp
qed

lemma synapse_weight_None: "synapse_weight s a b = None \<longleftrightarrow> find (is_edge a b) (synapses s) = None"
  by (simp add: synapse_weight_def)

text \<open>
  On a symmetric table, when the first upsert of a pair succeeds, the second succeeds
  too, and the table is symmetric again.
\<close>

lemma symmetric_pair:
  assumes "symmetric s" "a \<noteq> b" "upsertSynapse a b d d now s = Ok s1"
  shows "\<exists>s2. upsertSynapse b a d d now s1 = Ok s2 \<and> symmetric s2"
proof -
  from assms(1) have sym: "\<And>x y. synapse_weight s x y = synapse_weight s y x"
    and dis: "distinct (map edge_key (synapses s))"
    by (simp_all add: symmetric_def)
  note w1 = synapse_weight_upsert [OF assms(3)]
  have n1: "neurons s1 = neurons s" using assms(3) by (rule neurons_upsertSynapse)
  have "\<exists>s2. upsertSynapse b a d d now s1 = Ok s2"
  proof (cases "find (is_edge b a) (synapses s1)")
    case (Some e)
    then show ?thesis by (simp add: upsertSynapse_def)
  next
    case None
    then have "synapse_weight s1 b a = None" by (simp add: synapse_weight_None)
    with w1 [of b a] assms(2) have "synapse_weight s b a = None" by simp
    with sym have "find (is_edge a b) (synapses s) = None" by (simp add: synapse_weight_None)
    with assms(3) have "getNeuron s a \<noteq> None \<and> getNeuron s b \<noteq> None"
      by (auto simp: upsertSynapse_def split: if_splits)
    then have "getNeuron s1 a \<noteq> None \<and> getNeuron s1 b \<noteq> None"
      by (simp add: getNeuron_def n1)
    with None show ?thesis by (simp add: upsertSynapse_def)
  qed
  then obtain s2 where u2: "upsertSynapse b a d d now s1 = Ok s2" by blast
  note w2 = synapse_weight_upsert [OF u2]
  have "\<And>x y. synapse_weight s2 x y = synapse_weight s2 y x"
    using assms(2) sym by (auto simp: w2 w1)
  moreover have "distinct (map edge_key (synapses s2))"
    using distinct_upsert [OF u2 distinct_upsert [OF assms(3) dis]] .
  ultimately have "symmetric s2" by (simp add: symmetric_def)
  with u2 show ?thesis by blast
qed

lemma symmetric_hebbian:
  assumes "symmetric s"
  shows "symmetric (snd (hebbian i now len k rest s))"
  using assms
proof (induction rest arbitrary: k s)
  case Nil
  then show ?case by simp
next
  case (Cons r rest)
  let ?d = "LEARNING_RATE * (real (k + 1) / real len)"
  show ?case
  proof (cases "r = i")
    case True
    with Cons.IH [OF Cons.prems] show ?thesis by simp
  next
    case False
    show ?thesis
    proof (cases "upsertSynapse i r ?d ?d now s")
      case (Raised e)
      with False Cons.prems show ?thesis by (simp add: Let_def)
    next
      case (Ok s1)
      from False have "i \<noteq> r" by simp
      from symmetric_pair [OF Cons.prems this Ok]
      obtain s2 where u2: "upsertSynapse r i ?d ?d now s1 = Ok s2" and s2: "symmetric s2"
        by blast
      from Cons.IH [OF s2] False Ok u2 show ?thesis by (simp add: Let_def)
    qed
  qed
qed

lemma symmetric_cong: "synapses s' = synapses s \<Longrightarrow> symmetric s' = symmetric s"
  by (simp add: symmetric_def synapse_weight_def)

lemma symmetric_record_op:
  assumes "symmetric s"
  shows "symmetric (snd (record_op p ty q now s))"
proof (cases "existing_contexts (getNeuron s (id_of ty p))")
  case None
  have "synapses (ensureOpen s) = synapses s" by simp
  from symmetric_cong [OF this] assms have "symmetric (ensureOpen s)" by (simp only:)
  with None show ?thesis by (simp add: record_op_def)
next
  case (Some c0)
  let ?s1 = "upsertNeuron (id_of ty p) ty p 1
               (case getNeuron s (id_of ty p) of None \<Rightarrow> 0 | Some e \<Rightarrow> myelination e)
               now (JSON_stringify (push_context q c0)) (ensureOpen s)"
  let ?s2 = "?s1\<lparr>accessOrder := accessOrder ?s1 + 1\<rparr>"
  have "synapses ?s2 = synapses s" by simp
  from symmetric_cong [OF this] assms have s2: "symmetric ?s2" by (simp only:)
  show ?thesis
  proof (cases "logAccess (id_of ty p) (sessionId ?s2)
                  (case q of None \<Rightarrow> None | Some q \<Rightarrow> if q = [] then None else Some q)
                  now (token_cost_of ty) (accessOrder ?s2) ?s2")
    case (Raised e)
    with Some s2 show ?thesis by (simp add: record_op_def Let_def)
  next
    case (Ok s3)
    from symmetric_cong [OF synapses_logAccess [OF Ok]] s2 have s3: "symmetric s3"
      by (simp only:)
    have h: "symmetric (snd (hebbian (id_of ty p) now (length (recentAccesses s3)) 0 (recentAccesses s3) s3))"
      using s3 by (rule symmetric_hebbian)
    obtain out s4 where hb: "hebbian (id_of ty p) now (length (recentAccesses s3)) 0 (recentAccesses s3) s3 = (out, s4)"
      by (cases "hebbian (id_of ty p) now (length (recentAccesses s3)) 0 (recentAccesses s3) s3")
    with h have s4: "symmetric s4" by simp
    let ?s5 = "s4\<lparr>recentAccesses := track (id_of ty p) (recentAccesses s4)\<rparr>"
    have "synapses (updateSession (sessionId ?s5) (token_cost_of ty) ?s5) = synapses s4"
      by simp
    from symmetric_cong [OF this] s4
    have s6: "symmetric (updateSession (sessionId ?s5) (token_cost_of ty) ?s5)"
      by (simp only:)
    show ?thesis
      using Some Ok hb s4 s6
      by (cases out) (simp_all add: record_op_def Let_def)
  qed
qed

lemma symmetric_new: "symmetric (new_BrainBoxDB sid now)"
  by (simp add: symmetric_def synapse_weight_def new_BrainBoxDB_def createSession_def)

lemma symmetric_run:
  "symmetric s \<Longrightarrow> Decay \<notin> set cs \<Longrightarrow> symmetric (run cs s)"
proof (induction cs arbitrary: s)
  case Nil
  then show ?case by (simp add: run_def)
next
  case (Cons c cs)
  from Cons.prems(2) obtain p ty q now where c: "c = Record p ty q now"
    by (cases c) auto
  have "symmetric (apply_call s c)"
    using Cons.prems(1) by (simp add: c symmetric_record_op)
  from Cons.IH [OF this] Cons.prems(2) show ?case by (simp add: run_def)
qed

lemma synapse_weight_cong: "synapses s' = synapses s \<Longrightarrow> synapse_weight s' a b = synapse_weight s a b"
  by (simp add: synapse_weight_def)

lemma recentAccesses_upsertSynapse:
  "upsertSynapse src tgt w d now s = Ok s' \<Longrightarrow> recentAccesses s' = recentAccesses s"
  by (auto simp: upsertSynapse_def split: option.splits if_splits)

lemma recentAccesses_hebbian:
  "recentAccesses (snd (hebbian i now len k rest s)) = recentAccesses s"
proof (induction rest arbitrary: k s)
  case Nil
  show ?case by simp
next
  case (Cons r rest)
  show ?case
    by (auto simp: Let_def Cons.IH split: result.splits dest!: recentAccesses_upsertSynapse)
qed

text \<open>The loop only touches the edges between the recorded id and the window.\<close>

lemma hebbian_frame:
  assumes "\<not> (x = i \<and> y \<in> set rest)" "\<not> (y = i \<and> x \<in> set rest)"
  shows "synapse_weight (snd (hebbian i now len k rest s)) x y = synapse_weight s x y"
  using assms
proof (induction rest arbitrary: k s)
  case Nil
  show ?case by simp
next
  case (Cons r rest)
  let ?d = "LEARNING_RATE * (real (k + 1) / real len)"
  from Cons.prems have t: "\<not> (x = i \<and> y \<in> set rest)" "\<not> (y = i \<and> x \<in> set rest)"
    and h: "\<not> (x = i \<and> y = r)" "\<not> (y = i \<and> x = r)"
    by auto
  show ?case
  proof (cases "r = i")
    case True
    with Cons.IH [OF t] show ?thesis by simp
  next
    case False
    show ?thesis
    proof (cases "upsertSynapse i r ?d ?d now s")
      case (Raised e)
      with False show ?thesis by (simp add: Let_def)
    next
      case (Ok s1)
      have w1: "synapse_weight s1 x y = synapse_weight s x y"
        using h by (auto simp: synapse_weight_upsert [OF Ok])
      show ?thesis
      proof (cases "upsertSynapse r i ?d ?d now s1")
        case (Raised e)
        with False Ok w1 show ?thesis by (simp add: Let_def)
      next
        case Ok2: (Ok s2)
        have w2: "synapse_weight s2 x y = synapse_weight s x y"
          using h w1 by (auto simp: synapse_weight_upsert [OF Ok2])
        from Cons.IH [OF t, of "k + 1" s2] False Ok Ok2 w2 show ?thesis
          by (simp add: Let_def)
      qed
    qed
  qed
qed

text \<open>
  When the loop runs to its end, the edge from the recorded id to the window entry at
  position \<open>j\<close> has been upserted once, with the delta of that position.
\<close>

lemma hebbian_weights:
  assumes "distinct rest" "hebbian i now len k rest s = (Ok (), s')"
    "j < length rest" "rest ! j \<noteq> i"
  shows "synapse_weight s' i (rest ! j) =
         Some (upserted (delta_at (k + j) len) (synapse_weight s i (rest ! j)))"
  using assms
proof (induction rest arbitrary: k s j)
  case Nil
  then show ?case by simp
next
  case (Cons r rest)
  let ?d = "LEARNING_RATE * (real (k + 1) / real len)"
  from Cons.prems(1) have dr: "distinct rest" and nr: "r \<notin> set rest" by simp_all
  show ?case
  proof (cases "r = i")
    case True
    with Cons.prems(4) obtain j' where j: "j = Suc j'" by (cases j) auto
    from Cons.prems(2) True have hb: "hebbian i now len (k + 1) rest s = (Ok (), s')" by simp
    from Cons.prems(3,4) j have "j' < length rest" "rest ! j' \<noteq> i" by simp_all
    from Cons.IH [OF dr hb this] show ?thesis by (simp add: j)
  next
    case False
    from Cons.prems(2) False obtain s1 where u1: "upsertSynapse i r ?d ?d now s = Ok s1"
      by (cases "upsertSynapse i r ?d ?d now s") (simp_all add: Let_def)
    from Cons.prems(2) False u1 obtain s2 where u2: "upsertSynapse r i ?d ?d now s1 = Ok s2"
      by (cases "upsertSynapse r i ?d ?d now s1") (simp_all add: Let_def)
    from Cons.prems(2) False u1 u2 have hb: "hebbian i now len (k + 1) rest s2 = (Ok (), s')"
      by (simp add: Let_def)
    show ?thesis
    proof (cases j)
      case 0
      have "synapse_weight s' i r = synapse_weight (snd (hebbian i now len (k + 1) rest s2)) i r"
        using hb by simp
      also have "\<dots> = synapse_weight s2 i r"
        using nr False by (intro hebbian_frame) auto
      also have "\<dots> = synapse_weight s1 i r"
        using False by (auto simp: synapse_weight_upsert [OF u2])
      also have "\<dots> = Some (upserted ?d (synapse_weight s i r))"
        by (simp only: synapse_weight_upsert [OF u1] upserted_def simp_thms if_True)
      finally show ?thesis by (simp add: 0 delta_at_def)
    next
      case (Suc j')
      from Cons.prems(3,4) Suc have j': "j' < length rest" "rest ! j' \<noteq> i" by simp_all
      from j'(1) nr have ne: "rest ! j' \<noteq> r" by (metis nth_mem)
      have "synapse_weight s2 i (rest ! j') = synapse_weight s1 i (rest ! j')"
        using False j'(2) by (auto simp: synapse_weight_upsert [OF u2])
      also have "\<dots> = synapse_weight s i (rest ! j')"
        using ne by (auto simp: synapse_weight_upsert [OF u1])
      finally have e: "synapse_weight s2 i (rest ! j') = synapse_weight s i (rest ! j')" .
      from Cons.IH [OF dr hb j'] show ?thesis by (simp add: Suc e)
    qed
  qed
qed

lemma recentAccesses_logAccess:
  "logAccess i sid q now c ord s = Ok s' \<Longrightarrow> recentAccesses s' = recentAccesses s"
  by (auto simp: logAccess_def split: if_splits)

lemma recentAccesses_upsertNeuron [simp]:
  "recentAccesses (upsertNeuron i ty p a m now ctx s) = recentAccesses s"
  by (simp add: upsertNeuron_def split: option.splits)

lemma recentAccesses_ensureOpen [simp]: "recentAccesses (ensureOpen s) = recentAccesses s"
  by (simp add: ensureOpen_def)

text \<open>A call of \<open>record\<close> that returns has run the loop to its end.\<close>

lemma record_op_Ok:
  assumes "record_op p ty q now s = (Ok (), s')"
  shows "\<exists>s3 s4. synapses s3 = synapses s \<and> recentAccesses s3 = recentAccesses s \<and>
           hebbian (id_of ty p) now (length (recentAccesses s)) 0 (recentAccesses s) s3 = (Ok (), s4) \<and>
           synapses s' = synapses s4 \<and>
           recentAccesses s' = track (id_of ty p) (recentAccesses s)"
proof (cases "existing_contexts (getNeuron s (id_of ty p))")
  case None
  with assms show ?thesis by (simp add: record_op_def)
next
  case (Some c0)
  let ?s1 = "upsertNeuron (id_of ty p) ty p 1
               (case getNeuron s (id_of ty p) of None \<Rightarrow> 0 | Some e \<Rightarrow> myelination e)
               now (JSON_stringify (push_context q c0)) (ensureOpen s)"
  let ?s2 = "?s1\<lparr>accessOrder := accessOrder ?s1 + 1\<rparr>"
  show ?thesis
  proof (cases "logAccess (id_of ty p) (sessionId ?s2)
                  (case q of None \<Rightarrow> None | Some q \<Rightarrow> if q = [] then None else Some q)
                  now (token_cost_of ty) (accessOrder ?s2) ?s2")
    case (Raised e)
    with Some assms show ?thesis by (simp add: record_op_def Let_def)
  next
    case (Ok s3)
    have a3: "synapses s3 = synapses s" using synapses_logAccess [OF Ok] by simp
    have r3: "recentAccesses s3 = recentAccesses s" using recentAccesses_logAccess [OF Ok] by simp
    obtain out s4 where hb: "hebbian (id_of ty p) now (length (recentAccesses s3)) 0 (recentAccesses s3) s3 = (out, s4)"
      by (cases "hebbian (id_of ty p) now (length (recentAccesses s3)) 0 (recentAccesses s3) s3")
    have "recentAccesses (snd (out, s4)) = recentAccesses s3"
      unfolding hb [symmetric] by (rule recentAccesses_hebbian)
    then have r4: "recentAccesses s4 = recentAccesses s"
      by (simp add: r3)
    from assms Some Ok hb have o: "out = Ok ()"
      by (cases out) (simp_all add: record_op_def Let_def)
    from assms Some Ok hb o
    have s': "s' = updateSession (sessionId s4) (token_cost_of ty)
                (s4\<lparr>recentAccesses := track (id_of ty p) (recentAccesses s4)\<rparr>)"
      by (simp add: record_op_def Let_def)
    have "synapses s' = synapses s4" by (simp add: s')
    moreover have "recentAccesses s' = track (id_of ty p) (recentAccesses s)"
      by (simp add: s' updateSession_def r4)
    moreover have "hebbian (id_of ty p) now (length (recentAccesses s)) 0 (recentAccesses s) s3 = (Ok (), s4)"
      using hb o by (simp add: r3)
    ultimately show ?thesis using a3 r3 by blast
  qed
qed

lemma record_op_weights:
  assumes "distinct (recentAccesses s)" "record_op p ty q now s = (Ok (), s')"
    "j < length (recentAccesses s)" "recentAccesses s ! j \<noteq> id_of ty p"
  shows "synapse_weight s' (id_of ty p) (recentAccesses s ! j) =
         Some (upserted (delta_at j (length (recentAccesses s)))
                 (synapse_weight s (id_of ty p) (recentAccesses s ! j)))"
proof -
  from record_op_Ok [OF assms(2)] obtain s3 s4 where
    h: "synapses s3 = synapses s"
       "hebbian (id_of ty p) now (length (recentAccesses s)) 0 (recentAccesses s) s3 = (Ok (), s4)"
       "synapses s' = synapses s4"
    by blast
  from hebbian_weights [OF assms(1) h(2) assms(3,4)]
  show ?thesis
    by (simp add: synapse_weight_cong [OF h(1)] synapse_weight_cong [OF h(3)])
qed

lemma distinct_track: "distinct w \<Longrightarrow> distinct (track i w)"
  by (auto simp: track_def Let_def distinct_tl)

lemma recentAccesses_record_op:
  "recentAccesses (snd (record_op p ty q now s)) = recentAccesses s \<or>
   recentAccesses (snd (record_op p ty q now s)) = track (id_of ty p) (recentAccesses s)"
proof (cases "existing_contexts (getNeuron s (id_of ty p))")
  case None
  then show ?thesis by (simp add: record_op_def)
next
  case (Some c0)
  let ?s1 = "upsertNeuron (id_of ty p) ty p 1
               (case getNeuron s (id_of ty p) of None \<Rightarrow> 0 | Some e \<Rightarrow> myelination e)
               now (JSON_stringify (push_context q c0)) (ensureOpen s)"
  let ?s2 = "?s1\<lparr>accessOrder := accessOrder ?s1 + 1\<rparr>"
  show ?thesis
  proof (cases "logAccess (id_of ty p) (sessionId ?s2)
                  (case q of None \<Rightarrow> None | Some q \<Rightarrow> if q = [] then None else Some q)
                  now (token_cost_of ty) (accessOrder ?s2) ?s2")
    case (Raised e)
    with Some show ?thesis by (simp add: record_op_def Let_def)
  next
    case (Ok s3)
    have r3: "recentAccesses s3 = recentAccesses s" using recentAccesses_logAccess [OF Ok] by simp
    obtain out s4 where hb: "hebbian (id_of ty p) now (length (recentAccesses s3)) 0 (recentAccesses s3) s3 = (out, s4)"
      by (cases "hebbian (id_of ty p) now (length (recentAccesses s3)) 0 (recentAccesses s3) s3")
    have "recentAccesses (snd (out, s4)) = recentAccesses s3"
      unfolding hb [symmetric] by (rule recentAccesses_hebbian)
    then have r4: "recentAccesses s4 = recentAccesses s"
      by (simp add: r3)
    show ?thesis
      using Some Ok hb r4
      by (cases out) (simp_all add: record_op_def Let_def updateSession_def)
  qed
qed

lemma recentAccesses_decay: "recentAccesses (snd (decay s)) = recentAccesses s"
  by (simp add: decay_stmt_defs Let_def split: prod.splits)

lemma distinct_window_run:
  "distinct (recentAccesses s) \<Longrightarrow> distinct (recentAccesses (run cs s))"
proof (induction cs arbitrary: s)
  case Nil
  then show ?case by (simp add: run_def)
next
  case (Cons c cs)
  have "distinct (recentAccesses (apply_call s c))"
  proof (cases c)
    case (Record p ty q now)
    with recentAccesses_record_op [of p ty q now s] Cons.prems show ?thesis
      by (auto simp: distinct_track)
  next
    case Decay
    with Cons.prems show ?thesis by (simp add: recentAccesses_decay)
  qed
  from Cons.IH [OF this] show ?case by (simp add: run_def)
qed

lemma distinct_window_new: "distinct (recentAccesses (new_BrainBoxDB sid now))"
  by (simp add: new_BrainBoxDB_def createSession_def)

subsection \<open>Phase 2 of recall\<close>







section \<open>The claims\<close>

text \<open>
  C1. After every sequence of \<open>record\<close> and \<open>decay\<close> calls on a new database, whether
  the calls return or throw, every neuron has \<open>0 \<le> activation \<le> 1\<close> and
  \<open>0 \<le> myelination \<le> 0.95\<close>, and every synapse has \<open>0 \<le> weight \<le> 1\<close>. (The state
  after each call of a sequence is the state after a shorter sequence.)
\<close>

theorem range_invariant:
  "(\<forall>n \<in> set (neurons (run cs (new_BrainBoxDB sid t0))).
      0 \<le> activation n \<and> activation n \<le> 1 \<and> 0 \<le> myelination n \<and> myelination n \<le> 0.95) \<and>
   (\<forall>r \<in> set (synapses (run cs (new_BrainBoxDB sid t0))).
      0 \<le> weight r \<and> weight r \<le> 1)"
  using in_range_run [OF in_range_new, of cs sid t0]
  by (simp add: in_range_def list_all_iff neuron_ok_def synapse_ok_def MYELIN_MAX_def)

theorem range_invariant_witness:
  "neurons (run [Record ''/x'' ''file'' None 2000, Record ''/y'' ''file'' None 3000,
                 Record ''/x'' ''file'' None 4000, Decay] (new_BrainBoxDB ''nv-1000'' 1000)) \<noteq> [] \<and>
   synapses (run [Record ''/x'' ''file'' None 2000, Record ''/y'' ''file'' None 3000,
                 Record ''/x'' ''file'' None 4000, Decay] (new_BrainBoxDB ''nv-1000'' 1000)) \<noteq> [] \<and>
   myelination (hd (neurons (run [Record ''/x'' ''file'' None 2000, Record ''/y'' ''file'' None 3000,
                 Record ''/x'' ''file'' None 4000, Decay] (new_BrainBoxDB ''nv-1000'' 1000)))) \<le> 0.95 \<and>
   weight (hd (synapses (run [Record ''/x'' ''file'' None 2000, Record ''/y'' ''file'' None 3000,
                 Record ''/x'' ''file'' None 4000, Decay] (new_BrainBoxDB ''nv-1000'' 1000)))) \<le> 1"
proof -
  let ?s = "run [Record ''/x'' ''file'' None 2000, Record ''/y'' ''file'' None 3000,
                 Record ''/x'' ''file'' None 4000, Decay] (new_BrainBoxDB ''nv-1000'' 1000)"
  have n: "neurons ?s \<noteq> []" by code_simp
  have r: "synapses ?s \<noteq> []" by code_simp
  from n have hn: "hd (neurons ?s) \<in> set (neurons ?s)" by (rule hd_in_set)
  from r have hr: "hd (synapses ?s) \<in> set (synapses ?s)" by (rule hd_in_set)
  note t = range_invariant [of "[Record ''/x'' ''file'' None 2000, Record ''/y'' ''file'' None 3000,
                 Record ''/x'' ''file'' None 4000, Decay]" "''nv-1000''" 1000]
  from t have tn: "\<forall>n \<in> set (neurons ?s).
      0 \<le> activation n \<and> activation n \<le> 1 \<and> 0 \<le> myelination n \<and> myelination n \<le> 0.95"
    by (rule conjunct1)
  from t have tr: "\<forall>r \<in> set (synapses ?s). 0 \<le> weight r \<and> weight r \<le> 1"
    by (rule conjunct2)
  from bspec [OF tn hn] have "myelination (hd (neurons ?s)) \<le> 0.95" by (elim conjE)
  moreover from bspec [OF tr hr] have "weight (hd (synapses ?s)) \<le> 1" by (elim conjE)
  ultimately show ?thesis using n r by (intro conjI)
qed

text \<open>
  C2 (as amended). Recording the same path and type twice, where no neuron with that id
  existed, leaves exactly one neuron with that id; its \<open>access_count\<close> is 2 and its
  myelination is one application of the update formula to 0, that is 0.02: the first
  call inserts the row with myelination 0, only the second call advances it.
\<close>

theorem record_twice:
  assumes "getNeuron s (id_of ty p) = None"
  shows "\<exists>n. filter (\<lambda>n. nid n = id_of ty p)
            (neurons (snd (record_op p ty q2 now2 (snd (record_op p ty q1 now1 s))))) = [n]
          \<and> access_count n = 2
          \<and> myelination n = myelin_update 0
          \<and> myelination n = 0.02"
proof -
  have f: "filter (\<lambda>n. nid n = id_of ty p) (neurons s) = []"
    using assms by (simp add: getNeuron_def find_None_filter)
  have m: "myelin_update 0 = 0.02"
    by (simp add: myelin_update_def MYELIN_RATE_def MYELIN_MAX_def)
  show ?thesis
    by (simp add: neurons_record_twice [OF assms] f m)
qed

theorem record_twice_witness:
  "getNeuron pair0 ''file:/x'' = None \<and>
   map access_count (neurons twice) = [2] \<and> map myelination (neurons twice) = [0.02]"
proof -
  have h: "getNeuron pair0 (id_of ''file'' ''/x'') = None" by code_simp
  have t: "neurons twice = neurons (snd (record_op ''/x'' ''file'' None 3000 (snd (record_op ''/x'' ''file'' None 2000 pair0))))"
    by (simp add: twice_def)
  have e: "neurons pair0 = []" by code_simp
  from record_twice [OF h, of None 3000 None 2000] obtain n where
    n: "filter (\<lambda>n. nid n = id_of ''file'' ''/x'') (neurons twice) = [n]"
       "access_count n = 2" "myelination n = 0.02"
    unfolding t by blast
  have "map nid (neurons twice) = [id_of ''file'' ''/x'']" by code_simp
  then have "filter (\<lambda>n. nid n = id_of ''file'' ''/x'') (neurons twice) = neurons twice"
    by (cases "neurons twice") auto
  with n have "neurons twice = [n]" by simp
  moreover have "getNeuron pair0 ''file:/x'' = None" by code_simp
  ultimately show ?thesis using n by simp
qed

text \<open>
  C2 as stated fails: after the two calls the myelination is not the formula applied
  twice to 0.
\<close>

theorem record_twice_counterexample:
  "getNeuron pair0 ''file:/x'' = None \<and>
   map access_count (neurons twice) = [2] \<and>
   map myelination (neurons twice) \<noteq> [myelin_update (myelin_update 0)]"
  by code_simp

text \<open>
  C3 (as amended). In a new database, after two different neurons were recorded once each
  (the two synapses between them have weight 0.1), repeated \<open>decay()\<close> prunes the
  neurons, not the synapses, first: after 28 calls both neurons and both synapses are
  still there; the 29th call deletes both neurons (activation \<open>0.85^29 < 0.01\<close>,
  myelination 0, \<open>access_count = 1 < 2\<close>) and reports no synapse pruned by weight, the
  synapses going with their neurons; from then on, so also after 200 calls, no neuron
  and no synapse is left.
\<close>

theorem decay_prunes_pair:
  assumes "id_of ta pa \<noteq> id_of tb pb" and "29 \<le> k"
  shows "map weight (synapses (snd (record_op pb tb qb nb (snd (record_op pa ta qa na (new_BrainBoxDB sid n0)))))) = [0.1, 0.1] \<and>
    map nid (neurons (decays 28 (snd (record_op pb tb qb nb (snd (record_op pa ta qa na (new_BrainBoxDB sid n0))))))) = [id_of ta pa, id_of tb pb] \<and>
    length (synapses (decays 28 (snd (record_op pb tb qb nb (snd (record_op pa ta qa na (new_BrainBoxDB sid n0))))))) = 2 \<and>
    fst (decay (decays 28 (snd (record_op pb tb qb nb (snd (record_op pa ta qa na (new_BrainBoxDB sid n0))))))) = (0, 2) \<and>
    neurons (decays k (snd (record_op pb tb qb nb (snd (record_op pa ta qa na (new_BrainBoxDB sid n0)))))) = [] \<and>
    synapses (decays k (snd (record_op pb tb qb nb (snd (record_op pa ta qa na (new_BrainBoxDB sid n0)))))) = []"
proof -
  let ?s = "snd (record_op pb tb qb nb (snd (record_op pa ta qa na (new_BrainBoxDB sid n0))))"
  have p: "pair_shape 1 0.1 (id_of ta pa) (id_of tb pb) ?s"
    using assms(1) by (rule pair_shape_second_record)
  have l: "pair_shape (0.85 ^ 28) (0.1 * 0.98 ^ 28) (id_of ta pa) (id_of tb pb) (decays 28 ?s)"
    using p by (rule decays_live) simp
  have "length (synapses (decays 28 ?s)) = length (map weight (synapses (decays 28 ?s)))"
    by simp
  also have "\<dots> = 2" using l unfolding pair_shape_def by simp
  finally have n: "length (synapses (decays 28 ?s)) = 2" .
  from p have w: "map weight (synapses ?s) = [0.1, 0.1]" by (simp add: pair_shape_def)
  from l have i: "map nid (neurons (decays 28 ?s)) = [id_of ta pa, id_of tb pb]"
    by (simp add: pair_shape_def)
  from w i n decays_29 [OF p] decays_dead [OF p assms(2)] show ?thesis by simp
qed

theorem decay_prunes_pair_witness:
  "id_of ''file'' ''/x'' \<noteq> id_of ''file'' ''/y'' \<and> (29::nat) \<le> 200 \<and>
   fst (decay (decays 28 pair2)) = (0, 2) \<and>
   neurons (decays 200 pair2) = [] \<and> synapses (decays 200 pair2) = []"
proof -
  have d: "id_of ''file'' ''/x'' \<noteq> id_of ''file'' ''/y''" by (simp add: id_of_def)
  have k: "(29::nat) \<le> 200" by simp
  from decay_prunes_pair [OF d k, of "Some ''grep foo''" 3000 "Some ''grep foo''" 2000 "''nv-1000''" 1000]
  have "fst (decay (decays 28 pair2)) = (0, 2) \<and>
   neurons (decays 200 pair2) = [] \<and> synapses (decays 200 pair2) = []"
    unfolding pair2_def pair1_def pair0_def by (elim conjE) (intro conjI)
  with d k show ?thesis by (intro conjI) (elim conjE, assumption)+
qed

text \<open>
  C3 as stated fails: after the two records and 200 decays the two neurons have not
  survived.
\<close>

theorem decay_prunes_pair_counterexample:
  "neurons (decays 200 pair2) = []"
proof -
  have d: "id_of ''file'' ''/x'' \<noteq> id_of ''file'' ''/y''" by (simp add: id_of_def)
  have "pair_shape 1 0.1 (id_of ''file'' ''/x'') (id_of ''file'' ''/y'') pair2"
    unfolding pair2_def pair1_def pair0_def by (rule pair_shape_second_record [OF d])
  then have "neurons (decays 200 pair2) = [] \<and> synapses (decays 200 pair2) = []"
    by (rule decays_dead) simp
  then show ?thesis by (rule conjunct1)
qed

text \<open>
  C4 (as amended). In a new database \<open>record("/x", file, "grep foo")\<close> followed by
  \<open>record("/y", file, "grep foo")\<close> yields exactly two neurons and two synapses,
  \<open>/y\<rightarrow>/x\<close> and \<open>/x\<rightarrow>/y\<close>, each of weight 0.1. Whatever the clock readings, a subsequent
  \<open>recall("foo", file, 5)\<close> returns exactly \<open>/x\<close> and \<open>/y\<close>, both as direct matches
  with confidence at least 0.4, the more confident one first.
\<close>

theorem hebbian_pair:
  "map nid (neurons (hebb sid t0 n1 n2)) = [''file:/x'', ''file:/y''] \<and>
   map (\<lambda>r. (source_id r, target_id r, weight r)) (synapses (hebb sid t0 n1 n2)) =
     [(''file:/y'', ''file:/x'', 0.1), (''file:/x'', ''file:/y'', 0.1)] \<and>
   (\<exists>rx ry. nid (r_neuron rx) = ''file:/x'' \<and> nid (r_neuron ry) = ''file:/y'' \<and>
      activation_path rx = ''direct'' \<and> activation_path ry = ''direct'' \<and>
      0.4 \<le> confidence rx \<and> 0.4 \<le> confidence ry \<and>
      fst (recall ''foo'' ''file'' 5 nowMs (hebb sid t0 n1 n2)) =
        Ok (if confidence ry \<le> confidence rx then [rx, ry] else [ry, rx]))"
proof -
  have "\<exists>rx ry. nid (r_neuron rx) = ''file:/x'' \<and> nid (r_neuron ry) = ''file:/y'' \<and>
     activation_path rx = ''direct'' \<and> activation_path ry = ''direct'' \<and>
     confidence rx = direct_conf nowMs n1 \<and> confidence ry = direct_conf nowMs n2 \<and>
     fst (recall ''foo'' ''file'' 5 nowMs (hebb sid t0 n1 n2)) =
       Ok (if direct_conf nowMs n2 \<le> direct_conf nowMs n1 then [rx, ry] else [ry, rx])"
    by (rule hebb_recall)
  then obtain rx ry where
    r: "nid (r_neuron rx) = ''file:/x''" "nid (r_neuron ry) = ''file:/y''"
      "activation_path rx = ''direct''" "activation_path ry = ''direct''"
      "confidence rx = direct_conf nowMs n1" "confidence ry = direct_conf nowMs n2"
      "fst (recall ''foo'' ''file'' 5 nowMs (hebb sid t0 n1 n2)) =
       Ok (if direct_conf nowMs n2 \<le> direct_conf nowMs n1 then [rx, ry] else [ry, rx])"
    by (elim exE conjE) (rule that)
  have c: "0.4 \<le> confidence rx" "0.4 \<le> confidence ry"
    unfolding r(5,6) by (rule conf_gate(2))+
  have "\<exists>rx ry. nid (r_neuron rx) = ''file:/x'' \<and> nid (r_neuron ry) = ''file:/y'' \<and>
      activation_path rx = ''direct'' \<and> activation_path ry = ''direct'' \<and>
      0.4 \<le> confidence rx \<and> 0.4 \<le> confidence ry \<and>
      fst (recall ''foo'' ''file'' 5 nowMs (hebb sid t0 n1 n2)) =
        Ok (if confidence ry \<le> confidence rx then [rx, ry] else [ry, rx])"
    using r(1-4) c r(7) unfolding r(5,6) [symmetric]
    by (intro exI [of _ rx] exI [of _ ry] conjI)
  then show ?thesis
    by (simp add: hebb_state)
qed

theorem hebbian_pair_witness:
  "map nid (neurons pair2) = [''file:/x'', ''file:/y''] \<and> length (synapses pair2) = 2"
proof -
  have e: "pair2 = hebb ''nv-1000'' 1000 2000 3000"
    by (simp add: pair2_def pair1_def pair0_def hebb_def)
  note t = hebbian_pair [of "''nv-1000''" 1000 2000 3000 4000]
  from t have "map nid (neurons pair2) = [''file:/x'', ''file:/y'']"
    unfolding e by (rule conjunct1)
  moreover from t have m: "map (\<lambda>r. (source_id r, target_id r, weight r)) (synapses pair2) =
     [(''file:/y'', ''file:/x'', 0.1), (''file:/x'', ''file:/y'', 0.1)]"
    unfolding e by (elim conjE)
  moreover have "length (synapses pair2) =
      length (map (\<lambda>r. (source_id r, target_id r, weight r)) (synapses pair2))"
    by simp
  ultimately show ?thesis by simp
qed

text \<open>C4 as stated fails: the two calls leave two synapses, not four.\<close>

theorem hebbian_pair_counterexample:
  "length (neurons pair2) = 2 \<and> length (synapses pair2) = 2 \<and> length (synapses pair2) \<noteq> 4"
  by code_simp










text \<open>
  C8. After every sequence of \<open>record\<close> calls on a new database the synapse table is
  symmetric: the edge \<open>(a, b)\<close> is stored if and only if \<open>(b, a)\<close> is, with the same
  weight, and no key is stored twice. A further \<open>record\<close> that returns has upserted, for
  the window entry at every index \<open>j\<close> other than the recorded id, both directions with
  the same delta \<open>0.1 \<cdot> (j + 1) / |window|\<close>.
\<close>

theorem synapses_symmetric:
  assumes "Decay \<notin> set cs"
  shows "(synapse_weight (run cs (new_BrainBoxDB sid t0)) a b =
          synapse_weight (run cs (new_BrainBoxDB sid t0)) b a) \<and>
         distinct (map edge_key (synapses (run cs (new_BrainBoxDB sid t0)))) \<and>
         (record_op p ty q now (run cs (new_BrainBoxDB sid t0)) = (Ok (), s') \<and>
          j < length (recentAccesses (run cs (new_BrainBoxDB sid t0))) \<and>
          recentAccesses (run cs (new_BrainBoxDB sid t0)) ! j \<noteq> id_of ty p \<longrightarrow>
            synapse_weight s' (id_of ty p) (recentAccesses (run cs (new_BrainBoxDB sid t0)) ! j) =
              Some (upserted (delta_at j (length (recentAccesses (run cs (new_BrainBoxDB sid t0)))))
                 (synapse_weight (run cs (new_BrainBoxDB sid t0)) (id_of ty p)
                    (recentAccesses (run cs (new_BrainBoxDB sid t0)) ! j))) \<and>
            synapse_weight s' (recentAccesses (run cs (new_BrainBoxDB sid t0)) ! j) (id_of ty p) =
              synapse_weight s' (id_of ty p) (recentAccesses (run cs (new_BrainBoxDB sid t0)) ! j))"
proof -
  let ?s = "run cs (new_BrainBoxDB sid t0)"
  have sym: "symmetric ?s" using symmetric_new assms by (rule symmetric_run)
  have dw: "distinct (recentAccesses ?s)" using distinct_window_new by (rule distinct_window_run)
  have "record_op p ty q now ?s = (Ok (), s') \<and> j < length (recentAccesses ?s) \<and>
          recentAccesses ?s ! j \<noteq> id_of ty p \<longrightarrow>
            synapse_weight s' (id_of ty p) (recentAccesses ?s ! j) =
              Some (upserted (delta_at j (length (recentAccesses ?s)))
                 (synapse_weight ?s (id_of ty p) (recentAccesses ?s ! j))) \<and>
            synapse_weight s' (recentAccesses ?s ! j) (id_of ty p) =
              synapse_weight s' (id_of ty p) (recentAccesses ?s ! j)"
  proof (intro impI, elim conjE)
    assume r: "record_op p ty q now ?s = (Ok (), s')" and j: "j < length (recentAccesses ?s)"
      "recentAccesses ?s ! j \<noteq> id_of ty p"
    have "symmetric (snd (record_op p ty q now ?s))" using sym by (rule symmetric_record_op)
    then have "symmetric s'" by (simp add: r)
    then have "synapse_weight s' (recentAccesses ?s ! j) (id_of ty p) =
              synapse_weight s' (id_of ty p) (recentAccesses ?s ! j)"
      by (simp add: symmetric_def)
    with record_op_weights [OF dw r j] show
      "synapse_weight s' (id_of ty p) (recentAccesses ?s ! j) =
              Some (upserted (delta_at j (length (recentAccesses ?s)))
                 (synapse_weight ?s (id_of ty p) (recentAccesses ?s ! j))) \<and>
            synapse_weight s' (recentAccesses ?s ! j) (id_of ty p) =
              synapse_weight s' (id_of ty p) (recentAccesses ?s ! j)"
      by (intro conjI)
  qed
  with sym show ?thesis by (simp add: symmetric_def)
qed

theorem synapses_symmetric_witness:
  "Decay \<notin> set [Record ''/x'' ''file'' None 2000, Record ''/y'' ''file'' None 3000] \<and>
   synapse_weight (snd (record_op ''/x'' ''file'' None 4000
       (run [Record ''/x'' ''file'' None 2000, Record ''/y'' ''file'' None 3000]
          (new_BrainBoxDB ''nv-1000'' 1000)))) ''file:/x'' ''file:/y'' = Some 0.19 \<and>
   synapse_weight (snd (record_op ''/x'' ''file'' None 4000
       (run [Record ''/x'' ''file'' None 2000, Record ''/y'' ''file'' None 3000]
          (new_BrainBoxDB ''nv-1000'' 1000)))) ''file:/y'' ''file:/x'' = Some 0.19"
proof -
  let ?cs = "[Record ''/x'' ''file'' None 2000, Record ''/y'' ''file'' None 3000]"
  let ?s = "run ?cs (new_BrainBoxDB ''nv-1000'' 1000)"
  let ?s' = "snd (record_op ''/x'' ''file'' None 4000 ?s)"
  have d: "Decay \<notin> set ?cs" by simp
  have "fst (record_op ''/x'' ''file'' None 4000 ?s) = Ok ()" by code_simp
  then have r: "record_op ''/x'' ''file'' None 4000 ?s = (Ok (), ?s')"
    by (simp add: prod_eq_iff)
  have j: "1 < length (recentAccesses ?s)" by code_simp
  have w: "recentAccesses ?s ! 1 = ''file:/y''" by code_simp
  have i: "id_of ''file'' ''/x'' = ''file:/x''" by (simp add: id_of_def)
  have n: "recentAccesses ?s ! 1 \<noteq> id_of ''file'' ''/x''" unfolding w i by simp
  have l: "length (recentAccesses ?s) = 2" by code_simp
  have o: "synapse_weight ?s ''file:/x'' ''file:/y'' = Some 0.1" by code_simp
  have u: "upserted (delta_at 1 2) (Some 0.1) = 0.19"
    by (simp add: upserted_def delta_at_def strengthen_def LEARNING_RATE_def)
  note t = synapses_symmetric [OF d, of "''nv-1000''" 1000 "''file:/x''" "''file:/y''"
      "''/x''" "''file''" None 4000 ?s' 1]
  from t have "record_op ''/x'' ''file'' None 4000 ?s = (Ok (), ?s') \<and>
      1 < length (recentAccesses ?s) \<and> recentAccesses ?s ! 1 \<noteq> id_of ''file'' ''/x'' \<longrightarrow>
      synapse_weight ?s' (id_of ''file'' ''/x'') (recentAccesses ?s ! 1) =
        Some (upserted (delta_at 1 (length (recentAccesses ?s)))
           (synapse_weight ?s (id_of ''file'' ''/x'') (recentAccesses ?s ! 1))) \<and>
      synapse_weight ?s' (recentAccesses ?s ! 1) (id_of ''file'' ''/x'') =
        synapse_weight ?s' (id_of ''file'' ''/x'') (recentAccesses ?s ! 1)"
    by (elim conjE)
  with r j n have
    "synapse_weight ?s' (id_of ''file'' ''/x'') (recentAccesses ?s ! 1) =
        Some (upserted (delta_at 1 (length (recentAccesses ?s)))
           (synapse_weight ?s (id_of ''file'' ''/x'') (recentAccesses ?s ! 1))) \<and>
      synapse_weight ?s' (recentAccesses ?s ! 1) (id_of ''file'' ''/x'') =
        synapse_weight ?s' (id_of ''file'' ''/x'') (recentAccesses ?s ! 1)"
    by (elim impE) (intro conjI)
  then have "synapse_weight ?s' ''file:/x'' ''file:/y'' = Some 0.19 \<and>
      synapse_weight ?s' ''file:/y'' ''file:/x'' = synapse_weight ?s' ''file:/x'' ''file:/y''"
    unfolding w i l o u .
  with d show ?thesis by (simp only: simp_thms)
qed

text \<open>
  C9. \<open>close()\<close> is idempotent and reopening is lazy: closing twice is closing once, and
  \<open>record\<close> after \<open>close\<close> has the outcome and leaves the state that \<open>record\<close> has
  without the \<open>close\<close>.
\<close>

theorem close_idempotent_reopen_lazy:
  "close (close s) = close s \<and>
   record_op p ty c now (close s) = record_op p ty c now s"
  by (simp add: record_op_def ensureOpen_close) (simp add: close_def)

theorem close_idempotent_reopen_lazy_witness:
  "close (close pair2) = close pair2 \<and>
   fst (record_op ''/x'' ''file'' None 5000 (close pair2)) = Ok ()"
proof -
  have "fst (record_op ''/x'' ''file'' None 5000 pair2) = Ok ()"
    by code_simp
  with close_idempotent_reopen_lazy [of pair2 "''/x''" "''file''" None 5000]
  show ?thesis by simp
qed

text \<open>
  C10. \<open>recall\<close> is read-only: whatever the query, type, limit and clock, and whether it
  returns or throws, it leaves every table, the \<open>AUTOINCREMENT\<close> counter, the co-access
  window, the session id and the \<open>accessOrder\<close> counter as they were.
\<close>

theorem recall_read_only:
  "neurons (snd (recall q ty limit nowMs s)) = neurons s \<and>
   synapses (snd (recall q ty limit nowMs s)) = synapses s \<and>
   access_log (snd (recall q ty limit nowMs s)) = access_log s \<and>
   log_seq (snd (recall q ty limit nowMs s)) = log_seq s \<and>
   sessions (snd (recall q ty limit nowMs s)) = sessions s \<and>
   recentAccesses (snd (recall q ty limit nowMs s)) = recentAccesses s \<and>
   sessionId (snd (recall q ty limit nowMs s)) = sessionId s \<and>
   accessOrder (snd (recall q ty limit nowMs s)) = accessOrder s"
  by (simp add: recall_def ensureOpen_def Let_def)

theorem recall_read_only_witness:
  "map nid (neurons (snd (recall ''foo'' ''file'' 5 4000 pair2))) = [''file:/x'', ''file:/y''] \<and>
   length (synapses (snd (recall ''foo'' ''file'' 5 4000 pair2))) = 2 \<and>
   recentAccesses (snd (recall ''foo'' ''file'' 5 4000 pair2)) = [''file:/x'', ''file:/y''] \<and>
   accessOrder (snd (recall ''foo'' ''file'' 5 4000 pair2)) = 2"
proof -
  have "map nid (neurons pair2) = [''file:/x'', ''file:/y'']"
    and "length (synapses pair2) = 2"
    and "recentAccesses pair2 = [''file:/x'', ''file:/y'']"
    and "accessOrder pair2 = 2"
    by code_simp+
  with recall_read_only [of "''foo''" "''file''" 5 4000 pair2]
  show ?thesis by simp
qed

end
